theory Spec2Isabelle
  imports Complex_Main "HOL-Library.Log_Nat"
begin

section \<open>Python values used by app.py\<close>

text \<open>
  The application is a single module, \<^verbatim>\<open>app.py\<close>. It talks to several chatbot
  back ends over HTTP, lets them grade one another, asks each one a follow-up question
  and returns the follow-up answer with the best average grade. The embedding below
  follows the module function by function and keeps its names.

  Exceptions are values: a computation that may raise returns \<open>py_exc + 'a\<close>, with
  \<open>Inl\<close> for the exception. Only the classes that the module can meet are listed.
  \<open>ClientConnectionError\<close>, \<open>ClientResponseError\<close> and \<open>ContentTypeError\<close> are the
  subclasses of \<^verbatim>\<open>aiohttp.ClientError\<close> raised by a failed connection, by
  \<^verbatim>\<open>raise_for_status()\<close> and by \<^verbatim>\<open>response.json()\<close> on a wrong content type;
  \<open>JSONDecodeError\<close> is the subclass of \<^verbatim>\<open>ValueError\<close> raised by
  \<^verbatim>\<open>response.json()\<close> on a body that is not JSON; \<open>TimeoutError\<close> is
  \<^verbatim>\<open>asyncio.TimeoutError\<close>, raised when the session's total timeout expires;
  \<open>OverflowError\<close> is raised by the division of two integers whose quotient is too
  large for a float.
\<close>

datatype py_exc =
    ClientConnectionError
  | ClientResponseError
  | ContentTypeError
  | TimeoutError
  | JSONDecodeError
  | ValueError
  | AttributeError
  | KeyError
  | IndexError
  | TypeError
  | ZeroDivisionError
  | OverflowError

fun isinstance_ClientError :: "py_exc \<Rightarrow> bool" where
  "isinstance_ClientError ClientConnectionError = True"
| "isinstance_ClientError ClientResponseError = True"
| "isinstance_ClientError ContentTypeError = True"
| "isinstance_ClientError _ = False"

fun isinstance_ValueError :: "py_exc \<Rightarrow> bool" where
  "isinstance_ValueError ValueError = True"
| "isinstance_ValueError JSONDecodeError = True"
| "isinstance_ValueError _ = False"

fun isinstance_AttributeError :: "py_exc \<Rightarrow> bool" where
  "isinstance_AttributeError AttributeError = True"
| "isinstance_AttributeError _ = False"

subsection \<open>Dictionaries\<close>

text \<open>
  A Python \<^verbatim>\<open>dict\<close> keeps its keys in insertion order, and \<^verbatim>\<open>min\<close> and
  \<^verbatim>\<open>max\<close> over a dict depend on that order, so a dict is an association list.
  \<open>setitem\<close> is \<^verbatim>\<open>d[k] = v\<close>: an existing key keeps its place, a new key goes
  last. \<open>getitem\<close> is \<^verbatim>\<open>d[k]\<close>, which raises \<^verbatim>\<open>KeyError\<close> on a missing key.
  \<open>dict_of_pairs\<close> is a dict comprehension over a sequence of key-value pairs.
\<close>

type_synonym ('k, 'v) dict = "('k \<times> 'v) list"

fun setitem :: "('k, 'v) dict \<Rightarrow> 'k \<Rightarrow> 'v \<Rightarrow> ('k, 'v) dict" where
  "setitem [] k v = [(k, v)]"
| "setitem ((k', v') # d) k v = (if k' = k then (k', v) # d else (k', v') # setitem d k v)"

definition getitem :: "('k, 'v) dict \<Rightarrow> 'k \<Rightarrow> py_exc + 'v" where
  "getitem d k = (case map_of d k of None \<Rightarrow> Inl KeyError | Some v \<Rightarrow> Inr v)"

definition dict_of_pairs :: "('k \<times> 'v) list \<Rightarrow> ('k, 'v) dict" where
  "dict_of_pairs ps = foldl (\<lambda>d (k, v). setitem d k v) [] ps"

definition keys :: "('k, 'v) dict \<Rightarrow> 'k list" where
  "keys d = map fst d"

subsection \<open>Decoded JSON\<close>

text \<open>
  What \<^verbatim>\<open>await response.json()\<close> returns. The module only subscripts such a value
  with the string keys \<^verbatim>\<open>'choices'\<close> and \<^verbatim>\<open>'text'\<close> and with the index
  \<^verbatim>\<open>0\<close>, so \<open>JNum\<close> stands for any JSON number. A character of a text is a
  \<open>char\<close>: the model covers texts whose code points are below 256.
\<close>

datatype json =
    JNull
  | JBool bool
  | JNum int
  | JStr string
  | JArr "json list"
  | JObj "(string \<times> json) list"

text \<open>\<^verbatim>\<open>v[key]\<close> for a string key.\<close>

fun subscript_str :: "json \<Rightarrow> string \<Rightarrow> py_exc + json" where
  "subscript_str (JObj kvs) key = getitem kvs key"
| "subscript_str _ key = Inl TypeError"

text \<open>
  \<^verbatim>\<open>v[0]\<close>. The keys of a decoded JSON object are strings, so \<^verbatim>\<open>0\<close> is never
  one of them; indexing a string gives the one-character string.
\<close>

fun subscript_0 :: "json \<Rightarrow> py_exc + json" where
  "subscript_0 (JArr []) = Inl IndexError"
| "subscript_0 (JArr (x # xs)) = Inr x"
| "subscript_0 (JStr []) = Inl IndexError"
| "subscript_0 (JStr (c # cs)) = Inr (JStr [c])"
| "subscript_0 (JObj kvs) = Inl KeyError"
| "subscript_0 _ = Inl TypeError"

text \<open>The expression \<^verbatim>\<open>v['choices'][0]['text']\<close>.\<close>

definition choices_0_text :: "json \<Rightarrow> py_exc + json" where
  "choices_0_text v =
     (case subscript_str v ''choices'' of
        Inl e \<Rightarrow> Inl e
      | Inr cs \<Rightarrow>
          (case subscript_0 cs of
             Inl e \<Rightarrow> Inl e
           | Inr c \<Rightarrow> subscript_str c ''text''))"

definition answer :: "string \<Rightarrow> json" where
  "answer t = JObj [(''choices'', JArr [JObj [(''text'', JStr t)]])]"

definition sentinel :: json where
  "sentinel = answer ''Error processing request.''"

section \<open>The two regular expressions\<close>

subsection \<open>\<^verbatim>\<open>re.findall(r"([^.!?]*\?)", text)\<close>\<close>

definition sentence_end :: "char \<Rightarrow> bool" where
  "sentence_end c = (c = CHR ''.'' \<or> c = CHR ''!'' \<or> c = CHR ''?'')"

text \<open>
  A match attempt at the start of \<open>s\<close>: the starred class first takes the longest run
  of characters outside \<^verbatim>\<open>.!?\<close>, then gives characters back one at a time until a
  \<^verbatim>\<open>?\<close> follows. \<open>backtrack_q s k\<close> tries the run lengths \<open>k\<close>, \<open>k - 1\<close>, ..., \<open>0\<close>.
\<close>

fun backtrack_q :: "string \<Rightarrow> nat \<Rightarrow> string option" where
  "backtrack_q s 0 = (if take 1 s = ''?'' then Some (take 1 s) else None)"
| "backtrack_q s (Suc k) =
     (if take 1 (drop (Suc k) s) = ''?'' then Some (take (Suc (Suc k)) s)
      else backtrack_q s k)"

definition match_q :: "string \<Rightarrow> string option" where
  "match_q s = backtrack_q s (length (takeWhile (\<lambda>c. \<not> sentence_end c) s))"

text \<open>
  \<^verbatim>\<open>findall\<close> scans from left to right, tries a match at every position and resumes
  after the end of each match. The first argument counts the characters of the last
  match that are still to be skipped.
\<close>

fun findall_from :: "nat \<Rightarrow> string \<Rightarrow> string list" where
  "findall_from n [] = []"
| "findall_from (Suc n) (c # s) = findall_from n s"
| "findall_from 0 (c # s) =
     (case match_q (c # s) of
        Some m \<Rightarrow> m # findall_from (length m - 1) s
      | None \<Rightarrow> findall_from 0 s)"

definition findall_q :: "string \<Rightarrow> string list" where
  "findall_q s = findall_from 0 s"

subsection \<open>\<^verbatim>\<open>re.search(r'\b[1-5]\b', text)\<close>\<close>

text \<open>
  \<^verbatim>\<open>\w\<close> on a \<^verbatim>\<open>str\<close> pattern is Unicode aware: alphanumeric characters and the
  underscore. Below 256 these are the ASCII letters and digits, the underscore and the
  Latin-1 letters, superscript digits and fractions.
\<close>

definition is_word :: "char \<Rightarrow> bool" where
  "is_word c =
     (let n = (of_char c :: nat) in
        (48 \<le> n \<and> n \<le> 57) \<or> (65 \<le> n \<and> n \<le> 90) \<or> n = 95 \<or> (97 \<le> n \<and> n \<le> 122) \<or>
        n = 170 \<or> n = 178 \<or> n = 179 \<or> n = 181 \<or> n = 185 \<or> n = 186 \<or>
        (188 \<le> n \<and> n \<le> 190) \<or> (192 \<le> n \<and> n \<le> 214) \<or> (216 \<le> n \<and> n \<le> 246) \<or>
        248 \<le> n)"

text \<open>
  \<^verbatim>\<open>\b\<close> at position \<open>i\<close>: exactly one of the character before and the character
  at \<open>i\<close> is a word character; beyond either end of the text there is none.
\<close>

definition word_boundary :: "string \<Rightarrow> nat \<Rightarrow> bool" where
  "word_boundary s i =
     ((0 < i \<and> is_word (s ! (i - 1))) \<noteq> (i < length s \<and> is_word (s ! i)))"

definition match_score_at :: "string \<Rightarrow> nat \<Rightarrow> bool" where
  "match_score_at s i =
     (i < length s \<and> word_boundary s i \<and> s ! i \<in> set ''12345'' \<and> word_boundary s (Suc i))"

text \<open>The leftmost match, as the character matched (\<^verbatim>\<open>None\<close> when there is none).\<close>

definition re_search_score :: "string \<Rightarrow> char option" where
  "re_search_score s = map_option (\<lambda>i. s ! i) (find (match_score_at s) [0..<length s])"

text \<open>\<^verbatim>\<open>int(c)\<close> for a decimal digit \<open>c\<close>.\<close>

definition int_of_digit :: "char \<Rightarrow> int" where
  "int_of_digit c = int (of_char c) - 48"

text \<open>\<^verbatim>\<open>str.strip()\<close>: the white space characters below 256.\<close>

definition isspace :: "char \<Rightarrow> bool" where
  "isspace c = ((of_char c :: nat) \<in> {9, 10, 11, 12, 13, 28, 29, 30, 31, 32, 133, 160})"

definition strip :: "string \<Rightarrow> string" where
  "strip s = rev (dropWhile isspace (rev (dropWhile isspace s)))"

section \<open>The clarification question\<close>

text \<open>
  \<^verbatim>\<open>generate_clarification_question(response)\<close>. \<^verbatim>\<open>re.findall\<close> raises
  \<^verbatim>\<open>TypeError\<close> when the text is not a string.
\<close>

definition generate_clarification_question :: "json \<Rightarrow> py_exc + string" where
  "generate_clarification_question response =
     (case choices_0_text response of
        Inl e \<Rightarrow> Inl e
      | Inr (JStr response_text) \<Rightarrow>
          (case findall_q response_text of
             q # qs \<Rightarrow> Inr (''Can you clarify the following: '' @ q)
           | [] \<Rightarrow> Inr (''Can you provide more details about: '' @ take 100 response_text))
      | Inr _ \<Rightarrow> Inl TypeError)"

section \<open>Configuration and transport\<close>

text \<open>
  The module \<^verbatim>\<open>config\<close> supplies two dicts: \<^verbatim>\<open>CHATBOT_APIS\<close> (the URL of each
  chatbot) and \<^verbatim>\<open>API_KEYS\<close> (its credential). The HTTP library is outside the
  module, so the network is a parameter: \<open>post\<close> takes the state of the outside world
  and a request and gives what \<^verbatim>\<open>session.post\<close> gives (an exception or a response)
  together with the next state of the world. A response carries its status and what
  \<^verbatim>\<open>await response.json()\<close> gives. \<open>format_value\<close> is Python's rendering of a
  decoded JSON value that is not a string inside an f-string. The \<^verbatim>\<open>print\<close> calls of
  the exception handlers only log and are left out.
\<close>

type_synonym bot_id = string

record request =
  req_url :: string
  req_authorization :: string
  req_prompt :: string
  req_max_tokens :: nat

record http_response =
  resp_status :: nat
  resp_json :: "py_exc + json"

record 'w env =
  CHATBOT_APIS :: "(bot_id, string) dict"
  API_KEYS :: "(bot_id, string) dict"
  post :: "'w \<Rightarrow> request \<Rightarrow> (py_exc + http_response) \<times> 'w"
  format_value :: "json \<Rightarrow> string"

definition fstring :: "'w env \<Rightarrow> json \<Rightarrow> string" where
  "fstring E v = (case v of JStr s \<Rightarrow> s | _ \<Rightarrow> format_value E v)"

text \<open>\<^verbatim>\<open>response.raise_for_status()\<close> raises on a status of 400 or more.\<close>

definition raise_for_status :: "http_response \<Rightarrow> py_exc + unit" where
  "raise_for_status r = (if 400 \<le> resp_status r then Inl ClientResponseError else Inr ())"

text \<open>
  The three lines that \<^verbatim>\<open>send_to_chatbot\<close> and \<^verbatim>\<open>evaluate_response\<close> share:
  \<^verbatim>\<open>async with session.post(...) as response: response.raise_for_status();
  ... await response.json()\<close>.
\<close>

definition post_json :: "'w env \<Rightarrow> 'w \<Rightarrow> request \<Rightarrow> (py_exc + json) \<times> 'w" where
  "post_json E w rq =
     (case post E w rq of
        (Inl e, w') \<Rightarrow> (Inl e, w')
      | (Inr r, w') \<Rightarrow>
          (case raise_for_status r of
             Inl e \<Rightarrow> (Inl e, w')
           | Inr _ \<Rightarrow> (resp_json r, w')))"

section \<open>Asking one chatbot, asking all of them\<close>

text \<open>
  \<^verbatim>\<open>send_to_chatbot(session, chatbot, url, question)\<close>. The headers are built before
  the \<^verbatim>\<open>try\<close>, so a missing credential raises \<^verbatim>\<open>KeyError\<close>. The handler is
  \<^verbatim>\<open>except aiohttp.ClientError\<close>; any other exception leaves the function.
\<close>

definition send_to_chatbot ::
  "'w env \<Rightarrow> 'w \<Rightarrow> bot_id \<Rightarrow> string \<Rightarrow> string \<Rightarrow> (py_exc + json) \<times> 'w" where
  "send_to_chatbot E w chatbot url question =
     (case getitem (API_KEYS E) chatbot of
        Inl e \<Rightarrow> (Inl e, w)
      | Inr key \<Rightarrow>
          (case post_json E w
                  \<lparr>req_url = url, req_authorization = ''Bearer '' @ key,
                   req_prompt = question, req_max_tokens = 150\<rparr> of
             (Inl e, w') \<Rightarrow>
               if isinstance_ClientError e then (Inr sentinel, w') else (Inl e, w')
           | (Inr v, w') \<Rightarrow> (Inr v, w')))"

text \<open>
  \<^verbatim>\<open>asyncio.gather(*tasks, return_exceptions=True)\<close>: every task runs to its end, and a
  task that raises contributes its exception object (\<open>Inl\<close>) as its result. The tasks
  are started in the order of the list; the model runs them in that order.
\<close>

fun gather ::
  "'w env \<Rightarrow> 'w \<Rightarrow> (bot_id \<times> string) list \<Rightarrow> string \<Rightarrow> (py_exc + json) list \<times> 'w" where
  "gather E w [] question = ([], w)"
| "gather E w ((chatbot, url) # rest) question =
     (case send_to_chatbot E w chatbot url question of
        (r, w') \<Rightarrow> (case gather E w' rest question of (rs, w'') \<Rightarrow> (r # rs, w'')))"

definition get_responses_from_chatbots ::
  "'w env \<Rightarrow> 'w \<Rightarrow> string \<Rightarrow> (bot_id, py_exc + json) dict \<times> 'w" where
  "get_responses_from_chatbots E w question =
     (case gather E w (CHATBOT_APIS E) question of
        (responses, w') \<Rightarrow> (dict_of_pairs (zip (keys (CHATBOT_APIS E)) responses), w'))"

section \<open>Peer evaluation\<close>

text \<open>The handler \<^verbatim>\<open>except (aiohttp.ClientError, ValueError, AttributeError)\<close>.\<close>

definition except_default :: "py_exc \<Rightarrow> 'w \<Rightarrow> (py_exc + int) \<times> 'w" where
  "except_default e w =
     (if isinstance_ClientError e \<or> isinstance_ValueError e \<or> isinstance_AttributeError e
      then (Inr 3, w) else (Inl e, w))"

text \<open>
  \<^verbatim>\<open>evaluate_response(session, evaluator_bot, response_to_evaluate)\<close>. The headers and
  the prompt are built before the \<^verbatim>\<open>try\<close>. Inside it, \<^verbatim>\<open>.strip()\<close> on a text that
  is not a string and \<^verbatim>\<open>.group()\<close> on the \<^verbatim>\<open>None\<close> of a failed search raise
  \<^verbatim>\<open>AttributeError\<close>.
\<close>

definition evaluate_response ::
  "'w env \<Rightarrow> 'w \<Rightarrow> bot_id \<Rightarrow> json \<Rightarrow> (py_exc + int) \<times> 'w" where
  "evaluate_response E w evaluator_bot response_to_evaluate =
     (case getitem (API_KEYS E) evaluator_bot of
        Inl e \<Rightarrow> (Inl e, w)
      | Inr key \<Rightarrow>
     (case choices_0_text response_to_evaluate of
        Inl e \<Rightarrow> (Inl e, w)
      | Inr t \<Rightarrow>
     (case getitem (CHATBOT_APIS E) evaluator_bot of
        Inl e \<Rightarrow> except_default e w
      | Inr url \<Rightarrow>
     (case post_json E w
             \<lparr>req_url = url, req_authorization = ''Bearer '' @ key,
              req_prompt =
                ''Please evaluate the following response on a scale of 1 to 5 for quality and relevance: ''
                @ fstring E t,
              req_max_tokens = 50\<rparr> of
        (Inl e, w') \<Rightarrow> except_default e w'
      | (Inr evaluation_response, w') \<Rightarrow>
     (case choices_0_text evaluation_response of
        Inl e \<Rightarrow> except_default e w'
      | Inr (JStr score_text) \<Rightarrow>
          (case re_search_score (strip score_text) of
             None \<Rightarrow> except_default AttributeError w'
           | Some c \<Rightarrow> (Inr (int_of_digit c), w'))
      | Inr _ \<Rightarrow> except_default AttributeError w')))))"

text \<open>
  \<^verbatim>\<open>evaluate_responses(session, responses)\<close>. A value of \<open>responses\<close> is a decoded
  answer (\<open>Inr\<close>) or the exception object that \<^verbatim>\<open>gather\<close> stored (\<open>Inl\<close>), which
  is what \<^verbatim>\<open>isinstance(response, Exception)\<close> tests. \<open>setitem2\<close> is the assignment
  \<^verbatim>\<open>scores[bot1][bot2] = v\<close>; \<open>inner_loop\<close> and \<open>outer_loop\<close> are the two
  \<^verbatim>\<open>for\<close> loops, with the score table as their state.
\<close>

type_synonym score_table = "(bot_id, (bot_id, int) dict) dict"

definition setitem2 :: "score_table \<Rightarrow> bot_id \<Rightarrow> bot_id \<Rightarrow> int \<Rightarrow> py_exc + score_table" where
  "setitem2 scores bot1 bot2 v =
     (case getitem scores bot1 of
        Inl e \<Rightarrow> Inl e
      | Inr row \<Rightarrow> Inr (setitem scores bot1 (setitem row bot2 v)))"

fun inner_loop ::
  "'w env \<Rightarrow> bot_id \<Rightarrow> (bot_id \<times> (py_exc + json)) list \<Rightarrow> score_table \<Rightarrow> 'w
     \<Rightarrow> (py_exc + score_table) \<times> 'w" where
  "inner_loop E bot1 [] scores w = (Inr scores, w)"
| "inner_loop E bot1 ((bot2, response2) # rest) scores w =
     (case response2 of
        Inl exc \<Rightarrow> inner_loop E bot1 rest scores w
      | Inr r2 \<Rightarrow>
          if bot1 \<noteq> bot2 then
            (case evaluate_response E w bot1 r2 of
               (Inl e, w') \<Rightarrow> (Inl e, w')
             | (Inr v, w') \<Rightarrow>
                 (case setitem2 scores bot1 bot2 v of
                    Inl e \<Rightarrow> (Inl e, w')
                  | Inr scores' \<Rightarrow> inner_loop E bot1 rest scores' w'))
          else inner_loop E bot1 rest scores w)"

fun outer_loop ::
  "'w env \<Rightarrow> (bot_id, py_exc + json) dict \<Rightarrow> (bot_id \<times> (py_exc + json)) list \<Rightarrow> score_table \<Rightarrow> 'w
     \<Rightarrow> (py_exc + score_table) \<times> 'w" where
  "outer_loop E responses [] scores w = (Inr scores, w)"
| "outer_loop E responses ((bot1, response1) # rest) scores w =
     (case response1 of
        Inl exc \<Rightarrow> outer_loop E responses rest scores w
      | Inr r1 \<Rightarrow>
          (case inner_loop E bot1 responses scores w of
             (Inl e, w') \<Rightarrow> (Inl e, w')
           | (Inr scores', w') \<Rightarrow> outer_loop E responses rest scores' w'))"

definition evaluate_responses ::
  "'w env \<Rightarrow> 'w \<Rightarrow> (bot_id, py_exc + json) dict \<Rightarrow> (py_exc + score_table) \<times> 'w" where
  "evaluate_responses E w responses =
     outer_loop E responses responses
       (dict_of_pairs (map (\<lambda>chatbot. (chatbot, [])) (keys responses))) w"

text \<open>
  For stating properties of a score table: \<open>score_entry scores e s\<close> is the score
  \<^verbatim>\<open>scores[e][s]\<close> that evaluator \<open>e\<close> gave to subject \<open>s\<close>, when the table has one.
\<close>

definition score_entry :: "score_table \<Rightarrow> bot_id \<Rightarrow> bot_id \<Rightarrow> int option" where
  "score_entry scores e s = (case map_of scores e of None \<Rightarrow> None | Some row \<Rightarrow> map_of row s)"

section \<open>Selection\<close>

text \<open>
  \<^verbatim>\<open>min(d, key=d.get)\<close> and \<^verbatim>\<open>max(d, key=d.get)\<close>: the keys are visited in
  order and the candidate is replaced only by a strictly smaller (larger) value, so
  the first of several equal ones wins; an empty dict raises \<^verbatim>\<open>ValueError\<close>.
\<close>

definition py_min :: "('k, 'v :: linorder) dict \<Rightarrow> py_exc + 'k" where
  "py_min d =
     (case d of
        [] \<Rightarrow> Inl ValueError
      | p # ps \<Rightarrow>
          Inr (fst (foldl (\<lambda>best item. if snd item < snd best then item else best) p ps)))"

definition py_max :: "('k, 'v :: linorder) dict \<Rightarrow> py_exc + 'k" where
  "py_max d =
     (case d of
        [] \<Rightarrow> Inl ValueError
      | p # ps \<Rightarrow>
          Inr (fst (foldl (\<lambda>best item. if snd best < snd item then item else best) p ps)))"

text \<open>
  \<^verbatim>\<open>sum(score.values()) / len(score)\<close> divides two integers into a float, the
  double nearest to the exact quotient. A float is modelled by the rational number it
  denotes. \<open>round_half_even\<close> rounds to the nearest integer, a tie to the even one.
  For a positive \<open>x\<close>, \<open>binary_exponent x\<close> is the integer \<open>e\<close> with
  \<open>2 powi e \<le> x < 2 powi (e + 1)\<close>, found from the bit lengths of the numerator and
  the denominator of \<open>x\<close>. A double has 53 significant bits, so the doubles around
  \<open>x\<close> are the multiples of \<open>2 powi (e - 52)\<close>, and of \<open>2 powi (- 1074)\<close> in the
  subnormal range. A quotient that rounds to \<open>2 ^ 1024\<close> or more raises
  \<^verbatim>\<open>OverflowError\<close>, and a zero divisor raises \<^verbatim>\<open>ZeroDivisionError\<close>.
\<close>

definition round_half_even :: "rat \<Rightarrow> int" where
  "round_half_even x =
     (let f = \<lfloor>x\<rfloor>; r = x - of_int f
      in if r < 1 / 2 then f else if 1 / 2 < r then f + 1 else if even f then f else f + 1)"

definition binary_exponent :: "rat \<Rightarrow> int" where
  "binary_exponent x =
     (case quotient_of x of
        (p, q) \<Rightarrow> let d = bitlen p - bitlen q in if 2 powi d \<le> x then d else d - 1)"

definition float_of_rat :: "rat \<Rightarrow> py_exc + rat" where
  "float_of_rat x =
     (if x = 0 then Inr 0
      else
        let ulp = 2 powi (max (binary_exponent \<bar>x\<bar> - 52) (- 1074));
            y = of_int (round_half_even (\<bar>x\<bar> / ulp)) * ulp
        in if 2 ^ 1024 \<le> y then Inl OverflowError else Inr (sgn x * y))"

definition truediv :: "int \<Rightarrow> nat \<Rightarrow> py_exc + rat" where
  "truediv a n =
     (if n = 0 then Inl ZeroDivisionError else float_of_rat (of_int a / of_nat n))"

fun avg_scores_from ::
  "score_table \<Rightarrow> (bot_id, rat) dict \<Rightarrow> py_exc + (bot_id, rat) dict" where
  "avg_scores_from [] acc = Inr acc"
| "avg_scores_from ((bot', score) # rest) acc =
     (case truediv (sum_list (map snd score)) (length score) of
        Inl e \<Rightarrow> Inl e
      | Inr a \<Rightarrow> avg_scores_from rest (setitem acc bot' a))"

definition select_best_response :: "(bot_id, 'a) dict \<Rightarrow> score_table \<Rightarrow> py_exc + 'a" where
  "select_best_response clarifications scores =
     (case avg_scores_from scores [] of
        Inl e \<Rightarrow> Inl e
      | Inr avg_scores \<Rightarrow>
          (case py_max avg_scores of
             Inl e \<Rightarrow> Inl e
           | Inr best_bot \<Rightarrow> getitem clarifications best_bot))"

text \<open>
  For stating properties of the selection: the arithmetic mean of the scores of a row,
  as an exact quotient.
\<close>

definition arithmetic_mean :: "(bot_id, int) dict \<Rightarrow> rat" where
  "arithmetic_mean row = of_int (sum_list (map snd row)) / of_nat (length row)"

section \<open>The orchestration\<close>

text \<open>
  The loop of \<^verbatim>\<open>interact_between_bots\<close> over \<^verbatim>\<open>scores.items()\<close>. Subscripting an
  exception object (a value of \<open>responses\<close> that is \<open>Inl\<close>) raises \<^verbatim>\<open>TypeError\<close>.
\<close>

fun clarify_loop ::
  "'w env \<Rightarrow> (bot_id, py_exc + json) dict \<Rightarrow> (bot_id \<times> (bot_id, int) dict) list \<Rightarrow> (bot_id, json) dict \<Rightarrow> 'w
     \<Rightarrow> (py_exc + (bot_id, json) dict) \<times> 'w" where
  "clarify_loop E responses [] clarifications w = (Inr clarifications, w)"
| "clarify_loop E responses ((bot', score_dict) # rest) clarifications w =
     (case py_min score_dict of
        Inl e \<Rightarrow> (Inl e, w)
      | Inr bot_to_ask \<Rightarrow>
     (case getitem responses bot_to_ask of
        Inl e \<Rightarrow> (Inl e, w)
      | Inr (Inl exc) \<Rightarrow> (Inl TypeError, w)
      | Inr (Inr r) \<Rightarrow>
     (case generate_clarification_question r of
        Inl e \<Rightarrow> (Inl e, w)
      | Inr clarification_question \<Rightarrow>
     (case getitem (CHATBOT_APIS E) bot' of
        Inl e \<Rightarrow> (Inl e, w)
      | Inr url \<Rightarrow>
     (case send_to_chatbot E w bot' url clarification_question of
        (Inl e, w') \<Rightarrow> (Inl e, w')
      | (Inr a, w') \<Rightarrow> clarify_loop E responses rest (setitem clarifications bot' a) w')))))"

definition interact_between_bots :: "'w env \<Rightarrow> 'w \<Rightarrow> string \<Rightarrow> (py_exc + json) \<times> 'w" where
  "interact_between_bots E w initial_question =
     (case get_responses_from_chatbots E w initial_question of
        (responses, w1) \<Rightarrow>
     (case evaluate_responses E w1 responses of
        (Inl e, w2) \<Rightarrow> (Inl e, w2)
      | (Inr scores, w2) \<Rightarrow>
     (case clarify_loop E responses scores [] w2 of
        (Inl e, w3) \<Rightarrow> (Inl e, w3)
      | (Inr clarifications, w3) \<Rightarrow>
     (case evaluate_responses E w3 (map (\<lambda>(b, a). (b, Inr a)) clarifications) of
        (Inl e, w4) \<Rightarrow> (Inl e, w4)
      | (Inr final_scores, w4) \<Rightarrow>
          (select_best_response clarifications final_scores, w4)))))"

section \<open>Concrete environments\<close>

text \<open>
  A scripted network for evaluating the functions on concrete runs: the state of the
  world is the list of outcomes still to be delivered, one per request, and a request
  made after the script has run out fails to connect. \<open>two_bots\<close> configures the
  chatbots \<^verbatim>\<open>A\<close> and \<^verbatim>\<open>B\<close>; \<open>ok_reply t\<close> is a reply with status 200 whose body
  decodes to an answer with the text \<open>t\<close>.
\<close>

type_synonym script = "(py_exc + http_response) list"

definition scripted_post :: "script \<Rightarrow> request \<Rightarrow> (py_exc + http_response) \<times> script" where
  "scripted_post w rq =
     (case w of [] \<Rightarrow> (Inl ClientConnectionError, []) | r # rest \<Rightarrow> (r, rest))"

definition two_bots :: "script env" where
  "two_bots =
     \<lparr>CHATBOT_APIS = [(''A'', ''http://a''), (''B'', ''http://b'')],
      API_KEYS = [(''A'', ''ka''), (''B'', ''kb'')],
      post = scripted_post,
      format_value = (\<lambda>v. ''None'')\<rparr>"

definition ok_reply :: "string \<Rightarrow> py_exc + http_response" where
  "ok_reply t = Inr \<lparr>resp_status = 200, resp_json = Inr (answer t)\<rparr>"

text \<open>
  \<open>three_bots\<close> adds the chatbot \<^verbatim>\<open>C\<close>. \<open>one_failed\<close> is a result of the first round
  in which \<^verbatim>\<open>A\<close> and \<^verbatim>\<open>B\<close> answered and \<^verbatim>\<open>C\<close> timed out.
\<close>

definition three_bots :: "script env" where
  "three_bots =
     \<lparr>CHATBOT_APIS = [(''A'', ''http://a''), (''B'', ''http://b''), (''C'', ''http://c'')],
      API_KEYS = [(''A'', ''ka''), (''B'', ''kb''), (''C'', ''kc'')],
      post = scripted_post,
      format_value = (\<lambda>v. ''None'')\<rparr>"

definition one_failed :: "(bot_id, py_exc + json) dict" where
  "one_failed =
     [(''A'', Inr (answer ''HOL is a logic.'')),
      (''B'', Inr (answer ''HOL is a prover.'')),
      (''C'', Inl TimeoutError)]"

text \<open>
  \<open>all_answered\<close> is a first round in which all three chatbots answered, and
  \<open>tied_scores\<close> a score table over them in which \<^verbatim>\<open>B\<close> and \<^verbatim>\<open>C\<close> have the same
  mean, 4.5, above the 4 of \<^verbatim>\<open>A\<close>. \<open>clarified\<close> holds three follow-up answers.
\<close>

definition all_answered :: "(bot_id, py_exc + json) dict" where
  "all_answered =
     [(''A'', Inr (answer ''HOL is a logic.'')),
      (''B'', Inr (answer ''HOL is a prover. Which one do you mean?'')),
      (''C'', Inr (answer ''HOL is a library.''))]"

definition tied_scores :: score_table where
  "tied_scores =
     [(''A'', [(''B'', 4), (''C'', 4)]),
      (''B'', [(''A'', 5), (''C'', 4)]),
      (''C'', [(''A'', 4), (''B'', 5)])]"

definition clarified :: "(bot_id, json) dict" where
  "clarified =
     [(''A'', answer ''HOL is a logic, as I said.''),
      (''B'', answer ''HOL is a prover, as I said.''),
      (''C'', answer ''HOL is a library, as I said.'')]"

section \<open>The clarification question: properties\<close>

lemma backtrack_q_Some: "backtrack_q s k = Some m \<Longrightarrow> CHR ''?'' \<in> set s"
proof (induction k)
  case 0
  then show ?case by (cases s) (auto split: if_splits)
next
  case (Suc k)
  show ?case
  proof (cases "take 1 (drop (Suc k) s) = ''?''")
    case True
    then have "CHR ''?'' \<in> set (take 1 (drop (Suc k) s))" by simp
    then show ?thesis by (meson in_set_dropD in_set_takeD)
  next
    case False
    with Suc show ?thesis by simp
  qed
qed

lemma findall_from_no_question: "CHR ''?'' \<notin> set s \<Longrightarrow> findall_from n s = []"
proof (induction n s rule: findall_from.induct)
  case (3 c s)
  have "match_q (c # s) = None"
  proof (cases "match_q (c # s)")
    case (Some m)
    then have "CHR ''?'' \<in> set (c # s)" unfolding match_q_def by (rule backtrack_q_Some)
    with 3(3) show ?thesis by simp
  qed simp
  with 3 show ?case by simp
qed simp_all

text \<open>
  Claim C7, as the code has it. The question depends on the response only through its
  text \<^verbatim>\<open>response['choices'][0]['text']\<close>. On the text
  \<^verbatim>\<open>It works. Have you tried restarting?\<close> the first match of the pattern starts
  right after the full stop, so it keeps the blank before \<^verbatim>\<open>Have\<close>, and the
  question has two blanks after the colon. A text without a question mark gives the
  fallback question on its first 100 characters.
\<close>

theorem clarify_text:
  "(choices_0_text r = choices_0_text r' \<longrightarrow>
      generate_clarification_question r = generate_clarification_question r') \<and>
   generate_clarification_question (answer ''It works. Have you tried restarting?'')
     = Inr ''Can you clarify the following:  Have you tried restarting?'' \<and>
   (CHR ''?'' \<notin> set t \<longrightarrow>
      generate_clarification_question (answer t)
        = Inr (''Can you provide more details about: '' @ take 100 t))"
proof (intro conjI impI)
  assume "choices_0_text r = choices_0_text r'"
  then show "generate_clarification_question r = generate_clarification_question r'"
    by (simp add: generate_clarification_question_def)
next
  show "generate_clarification_question (answer ''It works. Have you tried restarting?'')
     = Inr ''Can you clarify the following:  Have you tried restarting?''"
    by code_simp
next
  assume "CHR ''?'' \<notin> set t"
  then have "findall_q t = []" by (simp add: findall_q_def findall_from_no_question)
  then show "generate_clarification_question (answer t)
        = Inr (''Can you provide more details about: '' @ take 100 t)"
    by (simp add: generate_clarification_question_def answer_def choices_0_text_def getitem_def)
qed

theorem clarify_text_witness:
  "CHR ''?'' \<notin> set ''It works'' \<and>
   choices_0_text (answer ''It works'')
     = choices_0_text
         (JObj [(''id'', JNum 7), (''choices'', JArr [JObj [(''text'', JStr ''It works'')]])]) \<and>
   generate_clarification_question
       (JObj [(''id'', JNum 7), (''choices'', JArr [JObj [(''text'', JStr ''It works'')]])])
     = Inr ''Can you provide more details about: It works''"
proof -
  let ?r = "JObj [(''id'', JNum 7), (''choices'', JArr [JObj [(''text'', JStr ''It works'')]])]"
  have a: "CHR ''?'' \<notin> set ''It works''" by simp
  have b: "choices_0_text (answer ''It works'') = choices_0_text ?r"
    by (simp add: choices_0_text_def answer_def getitem_def)
  note th = clarify_text [of "answer ''It works''" ?r "''It works''"]
  from th b
  have "generate_clarification_question (answer ''It works'')
          = generate_clarification_question ?r"
    by blast
  moreover from th a
  have "generate_clarification_question (answer ''It works'')
          = Inr (''Can you provide more details about: '' @ take 100 ''It works'')"
    by blast
  ultimately
  have "generate_clarification_question ?r = Inr ''Can you provide more details about: It works''"
    by simp
  with a b show ?thesis by blast
qed

text \<open>
  Claim C7, as the specification words it: the example is expected to give the question
  with a single blank after the colon. The code gives another string.
\<close>

theorem clarify_example_counterexample:
  "generate_clarification_question (answer ''It works. Have you tried restarting?'')
     \<noteq> Inr ''Can you clarify the following: Have you tried restarting?''"
  by code_simp

section \<open>Asking one chatbot: properties\<close>

text \<open>
  Claim C4, as the code has it. When the chatbot has a credential and the request fails
  with an \<^verbatim>\<open>aiohttp.ClientError\<close> (the connection fails, the status is 400 or more,
  or decoding the body raises a client error such as a wrong content type),
  \<^verbatim>\<open>send_to_chatbot\<close> returns the sentinel answer and raises nothing.
\<close>

theorem send_to_chatbot_client_error:
  assumes key: "getitem (API_KEYS E) chatbot = Inr key"
    and rq: "post E w \<lparr>req_url = url, req_authorization = ''Bearer '' @ key,
                      req_prompt = question, req_max_tokens = 150\<rparr> = (out, w')"
    and failure:
      "(\<exists>e. out = Inl e \<and> isinstance_ClientError e) \<or>
       (\<exists>r. out = Inr r \<and>
          (400 \<le> resp_status r \<or> (\<exists>e. resp_json r = Inl e \<and> isinstance_ClientError e)))"
  shows "send_to_chatbot E w chatbot url question = (Inr sentinel, w')"
proof -
  let ?rq = "\<lparr>req_url = url, req_authorization = ''Bearer '' @ key,
              req_prompt = question, req_max_tokens = 150\<rparr>"
  from rq failure
  have "\<exists>e. post_json E w ?rq = (Inl e, w') \<and> isinstance_ClientError e"
    by (auto simp: post_json_def raise_for_status_def)
  then obtain e where "post_json E w ?rq = (Inl e, w')" and "isinstance_ClientError e"
    by blast
  with key show ?thesis by (simp add: send_to_chatbot_def)
qed

theorem send_to_chatbot_client_error_witness:
  "send_to_chatbot two_bots [Inr \<lparr>resp_status = 503, resp_json = Inr JNull\<rparr>]
       ''A'' ''http://a'' ''What is HOL?''
     = (Inr (answer ''Error processing request.''), [])"
proof -
  have key: "getitem (API_KEYS two_bots) ''A'' = Inr ''ka''"
    by (simp add: two_bots_def getitem_def)
  have rq: "post two_bots [Inr \<lparr>resp_status = 503, resp_json = Inr JNull\<rparr>]
              \<lparr>req_url = ''http://a'', req_authorization = ''Bearer '' @ ''ka'',
               req_prompt = ''What is HOL?'', req_max_tokens = 150\<rparr>
            = (Inr \<lparr>resp_status = 503, resp_json = Inr JNull\<rparr>, [])"
    by (simp add: two_bots_def scripted_post_def)
  show ?thesis
    using send_to_chatbot_client_error [OF key rq] by (simp add: sentinel_def)
qed

text \<open>
  Claim C4, as the specification words it: no failure ever reaches the caller. A timeout
  and a body that is not JSON raise exceptions outside \<^verbatim>\<open>aiohttp.ClientError\<close>, and
  both leave \<^verbatim>\<open>send_to_chatbot\<close>.
\<close>

theorem send_to_chatbot_propagates_counterexample:
  "send_to_chatbot two_bots [Inl TimeoutError] ''A'' ''http://a'' ''What is HOL?''
     = (Inl TimeoutError, []) \<and>
   send_to_chatbot two_bots [Inr \<lparr>resp_status = 200, resp_json = Inl JSONDecodeError\<rparr>]
       ''A'' ''http://a'' ''What is HOL?''
     = (Inl JSONDecodeError, [])"
  by code_simp

section \<open>Scoring one answer: properties\<close>

lemma match_score_at_less: "match_score_at s i \<Longrightarrow> i < length s"
  by (simp add: match_score_at_def)

lemma re_search_score_None:
  "re_search_score s = None \<longleftrightarrow> (\<forall>i. \<not> match_score_at s i)"
  using match_score_at_less by (auto simp: re_search_score_def find_None_iff)

lemma re_search_score_Some:
  "re_search_score s = Some c \<longleftrightarrow>
     (\<exists>i. match_score_at s i \<and> (\<forall>j<i. \<not> match_score_at s j) \<and> c = s ! i)"
proof
  assume "re_search_score s = Some c"
  then obtain k where k: "find (match_score_at s) [0..<length s] = Some k" and c: "c = s ! k"
    by (auto simp: re_search_score_def)
  from k obtain i where i: "i < length [0..<length s]" "match_score_at s ([0..<length s] ! i)"
      "k = [0..<length s] ! i" "\<forall>j<i. \<not> match_score_at s ([0..<length s] ! j)"
    unfolding find_Some_iff by blast
  from i(1) have il: "i < length s" by simp
  with i(3) have ki: "k = i" by simp
  have "\<forall>j<i. \<not> match_score_at s j"
  proof (intro allI impI)
    fix j assume "j < i"
    with i(4) il show "\<not> match_score_at s j" by force
  qed
  moreover from i(2) il have "match_score_at s i" by simp
  moreover from c ki have "c = s ! i" by simp
  ultimately show "\<exists>i. match_score_at s i \<and> (\<forall>j<i. \<not> match_score_at s j) \<and> c = s ! i"
    by blast
next
  assume "\<exists>i. match_score_at s i \<and> (\<forall>j<i. \<not> match_score_at s j) \<and> c = s ! i"
  then obtain i where i: "match_score_at s i" "\<forall>j<i. \<not> match_score_at s j" "c = s ! i"
    by blast
  from i(1) have il: "i < length s" by (rule match_score_at_less)
  have "find (match_score_at s) [0..<length s] = Some i"
    unfolding find_Some_iff
  proof (intro exI [of _ i] conjI)
    show "i < length [0..<length s]" using il by simp
    show "match_score_at s ([0..<length s] ! i)" using il i(1) by simp
    show "i = [0..<length s] ! i" using il by simp
    show "\<forall>j<i. \<not> match_score_at s ([0..<length s] ! j)" using il i(2) by simp
  qed
  with i(3) show "re_search_score s = Some c" by (simp add: re_search_score_def)
qed

lemma int_of_digit_range:
  "c \<in> set ''12345'' \<Longrightarrow> 1 \<le> int_of_digit c \<and> int_of_digit c \<le> 5"
  by (auto simp: int_of_digit_def)

lemma re_search_score_range:
  "re_search_score s = Some c \<Longrightarrow> 1 \<le> int_of_digit c \<and> int_of_digit c \<le> 5"
proof -
  assume "re_search_score s = Some c"
  then obtain i where "match_score_at s i" and "c = s ! i"
    unfolding re_search_score_Some by blast
  then have "c \<in> set ''12345''" unfolding match_score_at_def by blast
  then show ?thesis by (rule int_of_digit_range)
qed

lemma except_default_range:
  "except_default e w = (Inr v, w') \<Longrightarrow> v = 3"
  by (auto simp: except_default_def split: if_splits)

lemma evaluate_response_range:
  assumes "evaluate_response E w ev r = (Inr v, w')"
  shows "1 \<le> v \<and> v \<le> 5"
  using assms
  by (auto simp: evaluate_response_def 
      split: sum.splits prod.splits json.splits option.splits
      dest!: except_default_range re_search_score_range)


text \<open>
  Claim C6, as the code has it. The evaluator has a credential and a URL and the answer
  under evaluation has a text. Then: a reply whose text is a string scores the first
  match of \<^verbatim>\<open>\b[1-5]\b\<close> in the stripped text, and 3 when there is no match; a reply
  whose text is not a string scores 3; a request that fails with a client error, a
  \<^verbatim>\<open>ValueError\<close> (a body that is not JSON) or an \<^verbatim>\<open>AttributeError\<close> scores 3; the
  first match is the leftmost position holding a digit from 1 to 5 between two word
  boundaries; and every score that is returned lies between 1 and 5.
\<close>

theorem evaluate_response_score:
  assumes key: "getitem (API_KEYS E) ev = Inr key"
    and tx: "choices_0_text r = Inr t"
    and url: "getitem (CHATBOT_APIS E) ev = Inr url"
    and rq: "post_json E w
               \<lparr>req_url = url, req_authorization = ''Bearer '' @ key,
                req_prompt =
                  ''Please evaluate the following response on a scale of 1 to 5 for quality and relevance: ''
                  @ fstring E t,
                req_max_tokens = 50\<rparr> = (out, w')"
  shows "(\<forall>reply s. out = Inr reply \<and> choices_0_text reply = Inr (JStr s) \<longrightarrow>
            evaluate_response E w ev r =
              (Inr (case re_search_score (strip s) of None \<Rightarrow> 3 | Some c \<Rightarrow> int_of_digit c), w')) \<and>
         (\<forall>reply v. out = Inr reply \<and> choices_0_text reply = Inr v \<and> (\<forall>s. v \<noteq> JStr s) \<longrightarrow>
            evaluate_response E w ev r = (Inr 3, w')) \<and>
         (\<forall>e. out = Inl e \<and>
              (isinstance_ClientError e \<or> isinstance_ValueError e \<or> isinstance_AttributeError e) \<longrightarrow>
            evaluate_response E w ev r = (Inr 3, w')) \<and>
         (\<forall>s c. re_search_score s = Some c \<longleftrightarrow>
            (\<exists>i. match_score_at s i \<and> (\<forall>j<i. \<not> match_score_at s j) \<and> c = s ! i)) \<and>
         (\<forall>v. fst (evaluate_response E w ev r) = Inr v \<longrightarrow> 1 \<le> v \<and> v \<le> 5)"
proof (intro conjI allI impI)
  fix reply s
  assume "out = Inr reply \<and> choices_0_text reply = Inr (JStr s)"
  with key tx url rq
  show "evaluate_response E w ev r =
          (Inr (case re_search_score (strip s) of None \<Rightarrow> 3 | Some c \<Rightarrow> int_of_digit c), w')"
    by (simp add: evaluate_response_def except_default_def split: option.splits)
next
  fix reply v
  assume "out = Inr reply \<and> choices_0_text reply = Inr v \<and> (\<forall>s. v \<noteq> JStr s)"
  with key tx url rq show "evaluate_response E w ev r = (Inr 3, w')"
    by (cases v) (simp_all add: evaluate_response_def except_default_def)
next
  fix e
  assume "out = Inl e \<and>
      (isinstance_ClientError e \<or> isinstance_ValueError e \<or> isinstance_AttributeError e)"
  with key tx url rq show "evaluate_response E w ev r = (Inr 3, w')"
    by (simp add: evaluate_response_def except_default_def)
next
  fix s c
  show "re_search_score s = Some c \<longleftrightarrow>
          (\<exists>i. match_score_at s i \<and> (\<forall>j<i. \<not> match_score_at s j) \<and> c = s ! i)"
    by (rule re_search_score_Some)
next
  fix v
  assume "fst (evaluate_response E w ev r) = Inr v"
  then have "evaluate_response E w ev r = (Inr v, snd (evaluate_response E w ev r))"
    by (metis prod.collapse)
  then have "1 \<le> v \<and> v \<le> 5" by (rule evaluate_response_range)
  then show "1 \<le> v" and "v \<le> 5" by simp_all
qed

theorem evaluate_response_score_witness:
  "evaluate_response two_bots [ok_reply ''  I give it a 4 out of 5.''] ''A'' (answer ''HOL is a logic.'')
     = (Inr 4, []) \<and>
   evaluate_response two_bots [Inr \<lparr>resp_status = 503, resp_json = Inr JNull\<rparr>] ''A''
       (answer ''HOL is a logic.'')
     = (Inr 3, [])"
proof -
  let ?rq = "\<lparr>req_url = ''http://a'', req_authorization = ''Bearer '' @ ''ka'',
                req_prompt =
                  ''Please evaluate the following response on a scale of 1 to 5 for quality and relevance: ''
                  @ fstring two_bots (JStr ''HOL is a logic.''),
                req_max_tokens = 50\<rparr>"
  have key: "getitem (API_KEYS two_bots) ''A'' = Inr ''ka''"
    by (simp add: two_bots_def getitem_def)
  have tx: "choices_0_text (answer ''HOL is a logic.'') = Inr (JStr ''HOL is a logic.'')"
    by (simp add: choices_0_text_def answer_def getitem_def)
  have url: "getitem (CHATBOT_APIS two_bots) ''A'' = Inr ''http://a''"
    by (simp add: two_bots_def getitem_def)
  have rq1: "post_json two_bots [ok_reply ''  I give it a 4 out of 5.''] ?rq
               = (Inr (answer ''  I give it a 4 out of 5.''), [])"
    by (simp add: post_json_def two_bots_def scripted_post_def ok_reply_def raise_for_status_def)
  have rq2: "post_json two_bots [Inr \<lparr>resp_status = 503, resp_json = Inr JNull\<rparr>] ?rq
               = (Inl ClientResponseError, [])"
    by (simp add: post_json_def two_bots_def scripted_post_def raise_for_status_def)
  have reply: "choices_0_text (answer ''  I give it a 4 out of 5.'')
                 = Inr (JStr ''  I give it a 4 out of 5.'')"
    by (simp add: choices_0_text_def answer_def getitem_def)
  have digit: "re_search_score (strip ''  I give it a 4 out of 5.'') = Some CHR ''4''"
    by code_simp
  have four: "int_of_digit CHR ''4'' = 4"
    by (simp add: int_of_digit_def)
  from evaluate_response_score [OF key tx url rq1] reply digit four
  have "evaluate_response two_bots [ok_reply ''  I give it a 4 out of 5.''] ''A''
          (answer ''HOL is a logic.'') = (Inr 4, [])"
    by simp
  moreover from evaluate_response_score [OF key tx url rq2]
  have "evaluate_response two_bots [Inr \<lparr>resp_status = 503, resp_json = Inr JNull\<rparr>] ''A''
          (answer ''HOL is a logic.'') = (Inr 3, [])"
    by simp
  ultimately show ?thesis by blast
qed

text \<open>
  Claim C6, as the specification words it: every failed reply or transport scores 3. A
  reply without \<^verbatim>\<open>choices\<close> raises \<^verbatim>\<open>KeyError\<close> and a timeout raises
  \<^verbatim>\<open>asyncio.TimeoutError\<close>; neither is handled, so no score is produced.
\<close>

theorem evaluate_response_propagates_counterexample:
  "evaluate_response two_bots [Inr \<lparr>resp_status = 200, resp_json = Inr (JObj [])\<rparr>] ''A''
       (answer ''HOL is a logic.'')
     = (Inl KeyError, []) \<and>
   evaluate_response two_bots [Inl TimeoutError] ''A'' (answer ''HOL is a logic.'')
     = (Inl TimeoutError, [])"
  by code_simp

section \<open>Asking all chatbots: properties\<close>

lemma keys_setitem:
  "keys (setitem d k v) = (if k \<in> set (keys d) then keys d else keys d @ [k])"
  by (induction d) (force simp: keys_def)+

lemma map_of_setitem: "map_of (setitem d k v) = (map_of d)(k \<mapsto> v)"
  by (induction d) (auto simp: fun_eq_iff)

lemma setitem_fresh: "k \<notin> set (keys d) \<Longrightarrow> setitem d k v = d @ [(k, v)]"
  by (induction d) (auto simp: keys_def)

lemma foldl_setitem_distinct:
  "distinct (keys (d @ ps)) \<Longrightarrow> foldl (\<lambda>d (k, v). setitem d k v) d ps = d @ ps"
proof (induction ps arbitrary: d)
  case Nil
  then show ?case by simp
next
  case (Cons p ps)
  obtain k v where p: "p = (k, v)" by (cases p)
  from Cons.prems p have fresh: "k \<notin> set (keys d)" by (auto simp: keys_def)
  from Cons.prems p have "distinct (keys ((d @ [(k, v)]) @ ps))" by (simp add: keys_def)
  then have "foldl (\<lambda>d (k, v). setitem d k v) (d @ [(k, v)]) ps = (d @ [(k, v)]) @ ps"
    by (rule Cons.IH)
  with p fresh show ?case by (simp add: setitem_fresh)
qed

lemma dict_of_pairs_distinct: "distinct (keys ps) \<Longrightarrow> dict_of_pairs ps = ps"
  using foldl_setitem_distinct [of "[]" ps] by (simp add: dict_of_pairs_def)

lemma gather_Cons:
  "gather E w ((b, u) # rest) q =
     (fst (send_to_chatbot E w b u q) # fst (gather E (snd (send_to_chatbot E w b u q)) rest q),
      snd (gather E (snd (send_to_chatbot E w b u q)) rest q))"
  by (simp split: prod.splits)

lemma length_gather: "length (fst (gather E w apis q)) = length apis"
proof (induction apis arbitrary: w)
  case Nil
  show ?case by simp
next
  case (Cons a apis)
  obtain b u where a: "a = (b, u)" by (cases a)
  show ?case unfolding a gather_Cons using Cons.IH by simp
qed

lemma gather_nth:
  "i < length apis \<Longrightarrow>
   fst (gather E w apis q) ! i =
     fst (send_to_chatbot E (snd (gather E w (take i apis) q)) (fst (apis ! i)) (snd (apis ! i)) q)"
proof (induction apis arbitrary: w i)
  case Nil
  then show ?case by simp
next
  case (Cons a apis)
  obtain b u where a: "a = (b, u)" by (cases a)
  show ?case
  proof (cases i)
    case 0
    show ?thesis unfolding a 0 gather_Cons by simp
  next
    case (Suc j)
    with Cons.prems have "j < length apis" by simp
    from Cons.IH [OF this] show ?thesis unfolding a Suc take_Suc_Cons gather_Cons by simp
  qed
qed

text \<open>
  Claim C5. \<^verbatim>\<open>CHATBOT_APIS\<close> is a dict, so its keys are distinct. The result of
  \<^verbatim>\<open>get_responses_from_chatbots\<close> has exactly the configured chatbots as its keys,
  in the same order and each once. The entry of each chatbot is the outcome of its own
  \<^verbatim>\<open>send_to_chatbot\<close> call (an answer, or the exception it raised), made in the
  world left by the calls started before it: no outcome of another chatbot removes or
  replaces it.
\<close>

theorem get_responses_keys:
  assumes "distinct (keys (CHATBOT_APIS E))"
  shows "keys (fst (get_responses_from_chatbots E w q)) = keys (CHATBOT_APIS E) \<and>
         distinct (keys (fst (get_responses_from_chatbots E w q))) \<and>
         (\<forall>i < length (CHATBOT_APIS E).
            fst (get_responses_from_chatbots E w q) ! i =
              (fst (CHATBOT_APIS E ! i),
               fst (send_to_chatbot E (snd (gather E w (take i (CHATBOT_APIS E)) q))
                      (fst (CHATBOT_APIS E ! i)) (snd (CHATBOT_APIS E ! i)) q)))"
proof -
  let ?apis = "CHATBOT_APIS E"
  let ?rs = "fst (gather E w ?apis q)"
  have len: "length ?rs = length ?apis" by (rule length_gather)
  then have k: "keys (zip (keys ?apis) ?rs) = keys ?apis" by (simp add: keys_def)
  with assms have "dict_of_pairs (zip (keys ?apis) ?rs) = zip (keys ?apis) ?rs"
    by (simp add: dict_of_pairs_distinct)
  moreover have "fst (get_responses_from_chatbots E w q) = dict_of_pairs (zip (keys ?apis) ?rs)"
    by (cases "gather E w ?apis q") (simp add: get_responses_from_chatbots_def)
  ultimately have eq: "fst (get_responses_from_chatbots E w q) = zip (keys ?apis) ?rs"
    by simp
  show ?thesis
  proof (intro conjI allI impI)
    show "keys (fst (get_responses_from_chatbots E w q)) = keys ?apis" using eq k by simp
  next
    show "distinct (keys (fst (get_responses_from_chatbots E w q)))" using eq k assms by simp
  next
    fix i assume i: "i < length ?apis"
    with len have "zip (keys ?apis) ?rs ! i = (keys ?apis ! i, ?rs ! i)" by (simp add: keys_def)
    with i eq gather_nth [OF i, of E w q]
    show "fst (get_responses_from_chatbots E w q) ! i =
              (fst (?apis ! i),
               fst (send_to_chatbot E (snd (gather E w (take i ?apis) q))
                      (fst (?apis ! i)) (snd (?apis ! i)) q))"
      by (simp add: keys_def)
  qed
qed


theorem get_responses_keys_witness:
  "distinct (keys (CHATBOT_APIS two_bots)) \<and>
   keys (fst (get_responses_from_chatbots two_bots [Inl TimeoutError, ok_reply ''b1''] ''q''))
     = [''A'', ''B''] \<and>
   fst (get_responses_from_chatbots two_bots [Inl TimeoutError, ok_reply ''b1''] ''q'') ! 1
     = (''B'', Inr (answer ''b1''))"
proof -
  let ?w = "[Inl TimeoutError, ok_reply ''b1'']"
  have d: "distinct (keys (CHATBOT_APIS two_bots))"
    by (simp add: two_bots_def keys_def)
  have k: "keys (CHATBOT_APIS two_bots) = [''A'', ''B'']"
    by (simp add: two_bots_def keys_def)
  have one: "(1::nat) < length (CHATBOT_APIS two_bots)"
    by (simp add: two_bots_def)
  have b: "(fst (CHATBOT_APIS two_bots ! 1),
            fst (send_to_chatbot two_bots (snd (gather two_bots ?w (take 1 (CHATBOT_APIS two_bots)) ''q''))
                   (fst (CHATBOT_APIS two_bots ! 1)) (snd (CHATBOT_APIS two_bots ! 1)) ''q''))
           = (''B'', Inr (answer ''b1''))"
    by code_simp
  from get_responses_keys [OF d, of ?w "''q''"] one
  have k1: "keys (fst (get_responses_from_chatbots two_bots ?w ''q'')) = keys (CHATBOT_APIS two_bots)"
    and e1: "fst (get_responses_from_chatbots two_bots ?w ''q'') ! 1 =
           (fst (CHATBOT_APIS two_bots ! 1),
            fst (send_to_chatbot two_bots (snd (gather two_bots ?w (take 1 (CHATBOT_APIS two_bots)) ''q''))
                   (fst (CHATBOT_APIS two_bots ! 1)) (snd (CHATBOT_APIS two_bots ! 1)) ''q''))"
    by blast+
  from k1 k have "keys (fst (get_responses_from_chatbots two_bots ?w ''q'')) = [''A'', ''B'']"
    by (rule trans)
  moreover from e1 b
  have "fst (get_responses_from_chatbots two_bots ?w ''q'') ! 1 = (''B'', Inr (answer ''b1''))"
    by (rule trans)
  ultimately show ?thesis using d by blast
qed

section \<open>Scoring all answers: properties\<close>

lemma getitem_Inr_iff: "getitem d k = Inr v \<longleftrightarrow> map_of d k = Some v"
  by (simp add: getitem_def split: option.splits)

lemma map_of_Some_keys: "map_of d k = Some v \<Longrightarrow> k \<in> set (keys d)"
  by (auto simp: keys_def dest: map_of_SomeD intro: rev_image_eqI)

lemma setitem2_keys: "setitem2 scores b1 b2 v = Inr scores' \<Longrightarrow> keys scores' = keys scores"
  by (auto simp: setitem2_def getitem_def keys_setitem map_of_Some_keys split: option.splits)

lemma setitem2_entry:
  "setitem2 scores b1 b2 v = Inr scores' \<Longrightarrow>
   score_entry scores' e s = (if e = b1 \<and> s = b2 then Some v else score_entry scores e s)"
proof -
  assume "setitem2 scores b1 b2 v = Inr scores'"
  then obtain row where row: "map_of scores b1 = Some row"
    and s': "scores' = setitem scores b1 (setitem row b2 v)"
    by (auto simp: setitem2_def getitem_def split: option.splits)
  show ?thesis
  proof (cases "e = b1")
    case True
    with row s' show ?thesis by (simp add: score_entry_def map_of_setitem)
  next
    case False
    with s' show ?thesis by (simp add: score_entry_def map_of_setitem)
  qed
qed

lemma inner_loop_inv:
  "inner_loop E b1 items scores w = (Inr scores', w') \<Longrightarrow>
   keys scores' = keys scores \<and>
   (\<forall>e s. score_entry scores' e s \<noteq> None \<longleftrightarrow>
      score_entry scores e s \<noteq> None \<or> (e = b1 \<and> s \<noteq> b1 \<and> (\<exists>r. (s, Inr r) \<in> set items)))"
proof (induction items arbitrary: scores w)
  case Nil
  then show ?case by simp
next
  case (Cons it items)
  obtain b2 r2 where it: "it = (b2, r2)" by (cases it)
  show ?case
  proof (cases r2)
    case (Inl exc)
    with Cons.prems it have "inner_loop E b1 items scores w = (Inr scores', w')" by simp
    from Cons.IH [OF this] it Inl show ?thesis by auto
  next
    case (Inr r)
    show ?thesis
    proof (cases "b1 = b2")
      case True
      with Cons.prems it Inr have "inner_loop E b1 items scores w = (Inr scores', w')" by simp
      from Cons.IH [OF this] it Inr True show ?thesis by auto
    next
      case False
      with Cons.prems it Inr obtain v w1 s1 where
        ev: "evaluate_response E w b1 r = (Inr v, w1)" and
        st: "setitem2 scores b1 b2 v = Inr s1" and
        rest: "inner_loop E b1 items s1 w1 = (Inr scores', w')"
        by (auto split: prod.splits sum.splits)
      from Cons.IH [OF rest] setitem2_keys [OF st] setitem2_entry [OF st] it Inr False
      show ?thesis by auto
    qed
  qed
qed

lemma outer_loop_inv:
  "outer_loop E responses items scores w = (Inr scores', w') \<Longrightarrow>
   keys scores' = keys scores \<and>
   (\<forall>e s. score_entry scores' e s \<noteq> None \<longleftrightarrow>
      score_entry scores e s \<noteq> None \<or>
      ((\<exists>r. (e, Inr r) \<in> set items) \<and> s \<noteq> e \<and> (\<exists>r. (s, Inr r) \<in> set responses)))"
proof (induction items arbitrary: scores w)
  case Nil
  then show ?case by simp
next
  case (Cons it items)
  obtain b1 r1 where it: "it = (b1, r1)" by (cases it)
  show ?case
  proof (cases r1)
    case (Inl exc)
    with Cons.prems it have "outer_loop E responses items scores w = (Inr scores', w')" by simp
    from Cons.IH [OF this] it Inl show ?thesis by auto
  next
    case (Inr r)
    with Cons.prems it obtain w1 s1 where
      inner: "inner_loop E b1 responses scores w = (Inr s1, w1)" and
      rest: "outer_loop E responses items s1 w1 = (Inr scores', w')"
      by (auto split: prod.splits sum.splits)
    from Cons.IH [OF rest] inner_loop_inv [OF inner] it Inr
    show ?thesis by auto
  qed
qed


lemma set_setitem: "set (setitem d k v) \<subseteq> insert (k, v) (set d)"
  by (induction d) (auto split: if_splits)

lemma set_foldl_setitem:
  "set (foldl (\<lambda>d (k, v). setitem d k v) d ps) \<subseteq> set d \<union> set ps"
proof (induction ps arbitrary: d)
  case Nil
  show ?case by simp
next
  case (Cons p ps)
  obtain k v where p: "p = (k, v)" by (cases p)
  have "set (foldl (\<lambda>d (k, v). setitem d k v) (setitem d k v) ps) \<subseteq> set (setitem d k v) \<union> set ps"
    by (rule Cons.IH)
  with set_setitem [of d k v] p show ?case by auto
qed

lemma score_entry_init:
  "score_entry (dict_of_pairs (map (\<lambda>chatbot. (chatbot, [])) ks)) e s = None"
proof -
  define init :: score_table where "init = dict_of_pairs (map (\<lambda>chatbot. (chatbot, [])) ks)"
  have "score_entry init e s = None"
  proof (cases "map_of init e")
    case None
    then show ?thesis by (simp add: score_entry_def)
  next
    case (Some row)
    then have "(e, row) \<in> set init" by (rule map_of_SomeD)
    with set_foldl_setitem [of "[]" "map (\<lambda>chatbot. (chatbot, [])) ks"]
    have "(e, row) \<in> set (map (\<lambda>chatbot. (chatbot, [])) ks)"
      by (auto simp: dict_of_pairs_def init_def)
    then have "row = []" by auto
    with Some show ?thesis by (simp add: score_entry_def)
  qed
  then show ?thesis by (simp add: init_def)
qed

lemma keys_init:
  "distinct ks \<Longrightarrow>
   keys (dict_of_pairs (map (\<lambda>chatbot. (chatbot, [] :: (bot_id, int) dict)) ks)) = ks"
proof -
  assume d: "distinct ks"
  define ps :: "('a \<times> (bot_id, int) dict) list" where "ps = map (\<lambda>chatbot. (chatbot, [])) ks"
  have k: "keys ps = ks"
    by (simp add: keys_def comp_def ps_def)
  with d have "distinct (keys ps)" by simp
  then have "dict_of_pairs ps = ps" by (rule dict_of_pairs_distinct)
  with k show ?thesis by (simp add: ps_def)
qed

lemma evaluate_responses_entry:
  assumes "evaluate_responses E w responses = (Inr scores, w')"
  shows "score_entry scores e s \<noteq> None \<longleftrightarrow>
           (\<exists>r. (e, Inr r) \<in> set responses) \<and> s \<noteq> e \<and> (\<exists>r. (s, Inr r) \<in> set responses)"
  using outer_loop_inv [OF assms [unfolded evaluate_responses_def]] score_entry_init
  by simp

text \<open>
  Claim C3. In a score table returned by \<^verbatim>\<open>evaluate_responses\<close> no chatbot scores
  itself, and there is a score of evaluator \<open>e\<close> for subject \<open>s\<close> exactly when the
  two differ and both have an item in \<open>responses\<close> that is an answer, not an exception.
\<close>

theorem evaluate_responses_pairs:
  assumes "evaluate_responses E w responses = (Inr scores, w')"
  shows "score_entry scores b b = None \<and>
         (score_entry scores e s \<noteq> None \<longleftrightarrow>
            e \<noteq> s \<and> (\<exists>r. (e, Inr r) \<in> set responses) \<and> (\<exists>r. (s, Inr r) \<in> set responses))"
  using evaluate_responses_entry [OF assms, of b b] evaluate_responses_entry [OF assms, of e s]
  by auto

theorem evaluate_responses_pairs_witness:
  "evaluate_responses three_bots [ok_reply ''4'', ok_reply ''2''] one_failed
     = (Inr [(''A'', [(''B'', 4)]), (''B'', [(''A'', 2)]), (''C'', [])], []) \<and>
   score_entry [(''A'', [(''B'', 4)]), (''B'', [(''A'', 2)]), (''C'', [])] ''A'' ''A'' = None \<and>
   score_entry [(''A'', [(''B'', 4)]), (''B'', [(''A'', 2)]), (''C'', [])] ''A'' ''B'' \<noteq> None \<and>
   score_entry [(''A'', [(''B'', 4)]), (''B'', [(''A'', 2)]), (''C'', [])] ''A'' ''C'' = None"
proof -
  let ?T = "[(''A'', [(''B'', 4)]), (''B'', [(''A'', 2)]), (''C'', [])] :: score_table"
  have ev: "evaluate_responses three_bots [ok_reply ''4'', ok_reply ''2''] one_failed = (Inr ?T, [])"
    by code_simp
  have a: "\<exists>r. (''A'', Inr r) \<in> set one_failed" by (simp add: one_failed_def)
  have b: "\<exists>r. (''B'', Inr r) \<in> set one_failed" by (simp add: one_failed_def)
  have c: "\<not> (\<exists>r. (''C'', Inr r) \<in> set one_failed)" by (simp add: one_failed_def)
  from evaluate_responses_pairs [OF ev, of "''A''" "''A''" "''B''"] a b
  have "score_entry ?T ''A'' ''A'' = None" and "score_entry ?T ''A'' ''B'' \<noteq> None" by simp_all
  moreover from evaluate_responses_pairs [OF ev, of "''A''" "''A''" "''C''"] c
  have "score_entry ?T ''A'' ''C'' = None" by simp
  ultimately show ?thesis using ev by blast
qed

lemma map_of_all_None: "(\<forall>k. map_of d k = None) \<Longrightarrow> d = []"
  by (cases d) (auto simp: fun_eq_iff split: if_splits)

text \<open>
  Claim C10. A score table returned by \<^verbatim>\<open>evaluate_responses\<close> has the keys of
  \<open>responses\<close>, in the same order, and the row of a chatbot whose result is an exception
  is the empty dict.
\<close>

theorem evaluate_responses_keys:
  assumes d: "distinct (keys responses)"
    and ev: "evaluate_responses E w responses = (Inr scores, w')"
  shows "keys scores = keys responses \<and>
         (\<forall>b exc. (b, Inl exc) \<in> set responses \<longrightarrow> getitem scores b = Inr [])"
proof (intro conjI allI impI)
  from outer_loop_inv [OF ev [unfolded evaluate_responses_def]] keys_init [OF d]
  show k: "keys scores = keys responses" by simp
  fix b exc
  assume b: "(b, Inl exc) \<in> set responses"
  then have "b \<in> set (keys responses)" unfolding keys_def by force
  with k have "b \<in> set (keys scores)" by simp
  then obtain row where row: "map_of scores b = Some row"
    unfolding keys_def by (metis map_of_eq_None_iff not_None_eq set_map)
  have "\<forall>s. map_of row s = None"
  proof
    fix s
    have "\<not> (\<exists>r. (b, Inr r) \<in> set responses)"
    proof
      assume "\<exists>r. (b, Inr r) \<in> set responses"
      then obtain r where "(b, Inr r) \<in> set responses" by blast
      with b d have "Inr r = (Inl exc :: py_exc + json)"
        unfolding keys_def by (meson eq_key_imp_eq_value)
      then show False by simp
    qed
    with evaluate_responses_entry [OF ev, of b s] have "score_entry scores b s = None" by simp
    with row show "map_of row s = None" by (simp add: score_entry_def)
  qed
  then have "row = []" by (rule map_of_all_None)
  with row show "getitem scores b = Inr []" by (simp add: getitem_def)
qed

theorem evaluate_responses_keys_witness:
  "distinct (keys one_failed) \<and>
   evaluate_responses three_bots [ok_reply ''4'', ok_reply ''2''] one_failed
     = (Inr [(''A'', [(''B'', 4)]), (''B'', [(''A'', 2)]), (''C'', [])], []) \<and>
   keys [(''A'', [(''B'', 4 :: int)]), (''B'', [(''A'', 2)]), (''C'', [])] = [''A'', ''B'', ''C''] \<and>
   getitem [(''A'', [(''B'', 4 :: int)]), (''B'', [(''A'', 2)]), (''C'', [])] ''C'' = Inr []"
proof -
  let ?T = "[(''A'', [(''B'', 4)]), (''B'', [(''A'', 2)]), (''C'', [])] :: score_table"
  have d: "distinct (keys one_failed)" by (simp add: one_failed_def keys_def)
  have ev: "evaluate_responses three_bots [ok_reply ''4'', ok_reply ''2''] one_failed = (Inr ?T, [])"
    by code_simp
  have k: "keys one_failed = [''A'', ''B'', ''C'']" by (simp add: one_failed_def keys_def)
  have c: "(''C'', Inl TimeoutError) \<in> set one_failed" by (simp add: one_failed_def)
  from evaluate_responses_keys [OF d ev] c
  have "keys ?T = keys one_failed" and "getitem ?T ''C'' = Inr []" by blast+
  with k d ev show ?thesis by simp
qed

section \<open>Scoring all answers: when a table is returned\<close>

text \<open>
  \<^verbatim>\<open>evaluate_responses\<close> returns a score table when every chatbot that answered has
  a credential and a URL, every answer has a text, and the network only fails in the
  ways that \<^verbatim>\<open>evaluate_response\<close> handles and only delivers replies that have a
  text.
\<close>

lemma evaluate_response_returns:
  assumes key: "getitem (API_KEYS E) ev = Inr key"
    and tx: "choices_0_text r = Inr t"
    and url: "getitem (CHATBOT_APIS E) ev = Inr url"
    and net1: "\<forall>w rq e w'. post_json E w rq = (Inl e, w') \<longrightarrow>
                 isinstance_ClientError e \<or> isinstance_ValueError e \<or> isinstance_AttributeError e"
    and net2: "\<forall>w rq j w'. post_json E w rq = (Inr j, w') \<longrightarrow> (\<exists>t. choices_0_text j = Inr t)"
  shows "\<exists>v w'. evaluate_response E w ev r = (Inr v, w')"
proof -
  let ?rq = "\<lparr>req_url = url, req_authorization = ''Bearer '' @ key,
              req_prompt =
                ''Please evaluate the following response on a scale of 1 to 5 for quality and relevance: ''
                @ fstring E t,
              req_max_tokens = 50\<rparr>"
  obtain out w' where p: "post_json E w ?rq = (out, w')" by (cases "post_json E w ?rq")
  show ?thesis
  proof (cases out)
    case (Inl e)
    with p net1 have "isinstance_ClientError e \<or> isinstance_ValueError e \<or> isinstance_AttributeError e"
      by blast
    with key tx url p Inl show ?thesis by (simp add: evaluate_response_def except_default_def)
  next
    case (Inr j)
    with p net2 obtain t' where t': "choices_0_text j = Inr t'" by blast
    show ?thesis
    proof (cases "\<exists>s. t' = JStr s")
      case True
      then obtain s where "t' = JStr s" by blast
      with key tx url p Inr t' show ?thesis
        by (simp add: evaluate_response_def except_default_def split: option.splits)
    next
      case False
      with key tx url p Inr t' show ?thesis
        by (cases t') (simp_all add: evaluate_response_def except_default_def)
    qed
  qed
qed

lemma setitem2_returns:
  "b1 \<in> set (keys scores) \<Longrightarrow> \<exists>scores'. setitem2 scores b1 b2 v = Inr scores'"
proof -
  assume "b1 \<in> set (keys scores)"
  then obtain row where "map_of scores b1 = Some row"
    unfolding keys_def by (metis map_of_eq_None_iff not_None_eq set_map)
  then show ?thesis by (simp add: setitem2_def getitem_def)
qed

lemma inner_loop_returns:
  assumes key: "getitem (API_KEYS E) b1 = Inr key"
    and url: "getitem (CHATBOT_APIS E) b1 = Inr url"
    and net1: "\<forall>w rq e w'. post_json E w rq = (Inl e, w') \<longrightarrow>
                 isinstance_ClientError e \<or> isinstance_ValueError e \<or> isinstance_AttributeError e"
    and net2: "\<forall>w rq j w'. post_json E w rq = (Inr j, w') \<longrightarrow> (\<exists>t. choices_0_text j = Inr t)"
  shows "b1 \<in> set (keys scores) \<Longrightarrow>
         \<forall>b r. (b, Inr r) \<in> set items \<longrightarrow> (\<exists>t. choices_0_text r = Inr t) \<Longrightarrow>
         \<exists>scores' w'. inner_loop E b1 items scores w = (Inr scores', w')"
proof (induction items arbitrary: scores w)
  case Nil
  show ?case by simp
next
  case (Cons it items)
  obtain b2 r2 where it: "it = (b2, r2)" by (cases it)
  have txs': "\<forall>b r. (b, Inr r) \<in> set items \<longrightarrow> (\<exists>t. choices_0_text r = Inr t)"
    using Cons.prems(2) by auto
  show ?case
  proof (cases r2)
    case (Inl exc)
    with it Cons.IH [OF Cons.prems(1) txs'] show ?thesis by simp
  next
    case (Inr r)
    show ?thesis
    proof (cases "b1 = b2")
      case True
      with it Inr Cons.IH [OF Cons.prems(1) txs'] show ?thesis by simp
    next
      case False
      from Cons.prems(2) it Inr obtain t where t: "choices_0_text r = Inr t" by auto
      from evaluate_response_returns [OF key t url net1 net2]
      obtain v w1 where ev: "evaluate_response E w b1 r = (Inr v, w1)" by blast
      from setitem2_returns [OF Cons.prems(1)] obtain s1 where st: "setitem2 scores b1 b2 v = Inr s1"
        by blast
      from setitem2_keys [OF st] Cons.prems(1) have "b1 \<in> set (keys s1)" by simp
      from Cons.IH [OF this txs'] obtain scores' w' where
        "inner_loop E b1 items s1 w1 = (Inr scores', w')" by blast
      with it Inr False ev st show ?thesis by simp
    qed
  qed
qed

lemma outer_loop_returns:
  assumes txs: "\<forall>b r. (b, Inr r) \<in> set responses \<longrightarrow> (\<exists>t. choices_0_text r = Inr t)"
    and net1: "\<forall>w rq e w'. post_json E w rq = (Inl e, w') \<longrightarrow>
                 isinstance_ClientError e \<or> isinstance_ValueError e \<or> isinstance_AttributeError e"
    and net2: "\<forall>w rq j w'. post_json E w rq = (Inr j, w') \<longrightarrow> (\<exists>t. choices_0_text j = Inr t)"
  shows "\<forall>b r. (b, Inr r) \<in> set items \<longrightarrow>
           b \<in> set (keys scores) \<and> (\<exists>key. getitem (API_KEYS E) b = Inr key) \<and>
           (\<exists>url. getitem (CHATBOT_APIS E) b = Inr url) \<Longrightarrow>
         \<exists>scores' w'. outer_loop E responses items scores w = (Inr scores', w')"
proof (induction items arbitrary: scores w)
  case Nil
  show ?case by simp
next
  case (Cons it items)
  obtain b1 r1 where it: "it = (b1, r1)" by (cases it)
  have ks': "\<forall>b r. (b, Inr r) \<in> set items \<longrightarrow>
                 b \<in> set (keys scores) \<and> (\<exists>key. getitem (API_KEYS E) b = Inr key) \<and>
                 (\<exists>url. getitem (CHATBOT_APIS E) b = Inr url)"
    using Cons.prems by auto
  show ?case
  proof (cases r1)
    case (Inl exc)
    with it Cons.IH [OF ks'] show ?thesis by simp
  next
    case (Inr r)
    from it Inr have "(b1, Inr r) \<in> set (it # items)" by simp
    with Cons.prems have "b1 \<in> set (keys scores) \<and> (\<exists>key. getitem (API_KEYS E) b1 = Inr key) \<and>
        (\<exists>url. getitem (CHATBOT_APIS E) b1 = Inr url)"
      by blast
    then obtain key url where
      b1: "b1 \<in> set (keys scores)" and key: "getitem (API_KEYS E) b1 = Inr key" and
      url: "getitem (CHATBOT_APIS E) b1 = Inr url"
      by blast
    from inner_loop_returns [OF key url net1 net2 b1 txs] obtain s1 w1 where
      inner: "inner_loop E b1 responses scores w = (Inr s1, w1)" by blast
    from inner_loop_inv [OF inner] have k1: "keys s1 = keys scores" by blast
    have "\<forall>b r. (b, Inr r) \<in> set items \<longrightarrow>
                 b \<in> set (keys s1) \<and> (\<exists>key. getitem (API_KEYS E) b = Inr key) \<and>
                 (\<exists>url. getitem (CHATBOT_APIS E) b = Inr url)"
      using ks' k1 by simp
    from Cons.IH [OF this] obtain scores' w' where
      "outer_loop E responses items s1 w1 = (Inr scores', w')" by blast
    with it Inr inner show ?thesis by simp
  qed
qed

lemma evaluate_responses_returns:
  assumes d: "distinct (keys responses)"
    and ks: "\<forall>b r. (b, Inr r) \<in> set responses \<longrightarrow>
                 (\<exists>key. getitem (API_KEYS E) b = Inr key) \<and>
                 (\<exists>url. getitem (CHATBOT_APIS E) b = Inr url) \<and>
                 (\<exists>t. choices_0_text r = Inr t)"
    and net1: "\<forall>w rq e w'. post_json E w rq = (Inl e, w') \<longrightarrow>
                 isinstance_ClientError e \<or> isinstance_ValueError e \<or> isinstance_AttributeError e"
    and net2: "\<forall>w rq j w'. post_json E w rq = (Inr j, w') \<longrightarrow> (\<exists>t. choices_0_text j = Inr t)"
  shows "\<exists>scores w'. evaluate_responses E w responses = (Inr scores, w')"
proof -
  let ?init = "dict_of_pairs (map (\<lambda>chatbot. (chatbot, [] :: (bot_id, int) dict)) (keys responses))"
  from keys_init [OF d] have ki: "keys ?init = keys responses" .
  have a: "\<forall>b r. (b, Inr r) \<in> set responses \<longrightarrow>
                 b \<in> set (keys ?init) \<and> (\<exists>key. getitem (API_KEYS E) b = Inr key) \<and>
                 (\<exists>url. getitem (CHATBOT_APIS E) b = Inr url)"
  proof (intro allI impI)
    fix b r assume m: "(b, Inr r) \<in> set responses"
    then have "b \<in> set (keys responses)" unfolding keys_def by force
    with ki ks m show "b \<in> set (keys ?init) \<and> (\<exists>key. getitem (API_KEYS E) b = Inr key) \<and>
                 (\<exists>url. getitem (CHATBOT_APIS E) b = Inr url)" by simp
  qed
  have b: "\<forall>b r. (b, Inr r) \<in> set responses \<longrightarrow> (\<exists>t. choices_0_text r = Inr t)"
    using ks by blast
  from outer_loop_returns [OF b net1 net2 a]
  show ?thesis unfolding evaluate_responses_def by blast
qed

section \<open>The float quotient: properties\<close>

text \<open>
  Rounding moves a quotient below 8 by at most \<open>1 / 2 ^ 51\<close> and never overflows
  there. Two means of rows shorter than \<open>2 ^ 25\<close> that differ at all differ by more
  than \<open>1 / 2 ^ 50\<close>, so their floats are in the same order.
\<close>

lemma round_half_even_error: "\<bar>of_int (round_half_even x) - x\<bar> \<le> 1 / 2"
proof -
  have "of_int \<lfloor>x\<rfloor> \<le> x" and "x < of_int \<lfloor>x\<rfloor> + 1" by linarith+
  then show ?thesis
    by (auto simp: round_half_even_def Let_def abs_le_iff)
qed

lemma binary_exponent_le:
  assumes pos: "0 < x" and lt: "x < 8"
  shows "binary_exponent x \<le> 2"
proof -
  obtain p q where pq: "quotient_of x = (p, q)" by (cases "quotient_of x")
  then have q: "0 < q" and x: "x = of_int p / of_int q"
    by (simp_all add: quotient_of_denom_pos quotient_of_div)
  with pos have p: "0 < p" by (simp add: zero_less_divide_iff)
  define d where "d = bitlen p - bitlen q"
  show ?thesis
  proof (cases "2 powi d \<le> x")
    case True
    have "d \<le> 2"
    proof (rule ccontr)
      assume "\<not> d \<le> 2"
      then have "(2::rat) powi 3 \<le> 2 powi d" by (intro power_int_increasing) simp_all
      with True lt show False by simp
    qed
    with True pq show ?thesis by (simp add: binary_exponent_def d_def)
  next
    case False
    have "d \<le> 3"
    proof (rule ccontr)
      assume "\<not> d \<le> 3"
      then have d4: "4 \<le> d" by simp
      from bitlen_bounds [OF p] have lo: "2 ^ nat (bitlen p - 1) \<le> p" by simp
      from bitlen_bounds [OF q] have hi: "q < 2 ^ nat (bitlen q)" by simp
      have "0 \<le> bitlen q" by (rule bitlen_nonneg)
      with d4 have "nat (bitlen p - 1) = nat (bitlen q) + nat (d - 1)"
        by (simp add: d_def nat_add_distrib [symmetric])
      with lo have a: "2 ^ nat (bitlen q) * 2 ^ nat (d - 1) \<le> p" by (simp add: power_add)
      from d4 have "(2::int) ^ 3 \<le> 2 ^ nat (d - 1)"
        by (intro power_increasing) simp_all
      then have b: "(8::int) \<le> 2 ^ nat (d - 1)" by simp
      have "q * 8 \<le> 2 ^ nat (bitlen q) * 8" using hi by simp
      also have "\<dots> \<le> 2 ^ nat (bitlen q) * 2 ^ nat (d - 1)"
        using b by (intro mult_left_mono) simp_all
      also note a
      finally have "q * 8 \<le> p" .
      then have "(of_int q :: rat) * 8 \<le> of_int p"
        by (metis of_int_le_iff of_int_mult of_int_numeral)
      with q x have "8 \<le> x" by (simp add: le_divide_eq mult.commute)
      with lt show False by simp
    qed
    with False pq show ?thesis by (simp add: binary_exponent_def d_def)
  qed
qed


lemma float_of_rat_close:
  assumes pos: "0 < x" and lt: "x < 8"
  shows "\<exists>y. float_of_rat x = Inr y \<and> \<bar>y - x\<bar> \<le> 1 / 2 ^ 51"
proof -
  define k where "k = max (binary_exponent \<bar>x\<bar> - 52) (- 1074)"
  define ulp :: rat where "ulp = 2 powi k"
  define y where "y = of_int (round_half_even (\<bar>x\<bar> / ulp)) * ulp"
  from pos have ax: "\<bar>x\<bar> = x" by simp
  from binary_exponent_le [OF pos lt] have "k \<le> - 50" by (simp add: k_def ax)
  then have "ulp \<le> 2 powi (- 50)" unfolding ulp_def by (intro power_int_increasing) simp_all
  then have ulp50: "ulp \<le> 1 / 2 ^ 50" by (simp add: power_int_minus field_simps)
  have ulp0: "0 < ulp" by (simp add: ulp_def)
  have "\<bar>of_int (round_half_even (x / ulp)) - x / ulp\<bar> \<le> 1 / 2" by (rule round_half_even_error)
  then have "\<bar>of_int (round_half_even (x / ulp)) - x / ulp\<bar> * ulp \<le> 1 / 2 * ulp"
    using ulp0 by (intro mult_right_mono) simp_all
  moreover have "\<bar>of_int (round_half_even (x / ulp)) - x / ulp\<bar> * ulp = \<bar>y - x\<bar>"
  proof -
    have "\<bar>of_int (round_half_even (x / ulp)) - x / ulp\<bar> * ulp
            = \<bar>(of_int (round_half_even (x / ulp)) - x / ulp) * ulp\<bar>"
      using ulp0 by (simp add: abs_mult)
    also have "(of_int (round_half_even (x / ulp)) - x / ulp) * ulp = y - x"
      using ulp0 by (simp add: y_def ax left_diff_distrib)
    finally show ?thesis .
  qed
  ultimately have "\<bar>y - x\<bar> \<le> 1 / 2 * ulp" by simp
  also from ulp50 have "\<dots> \<le> 1 / 2 ^ 51" by simp
  finally have close: "\<bar>y - x\<bar> \<le> 1 / 2 ^ 51" .
  have "y - x \<le> \<bar>y - x\<bar>" by (rule abs_ge_self)
  also note close
  also have "(1::rat) / 2 ^ 51 \<le> 1" by simp
  finally have "y - x \<le> 1" .
  with lt have "y < 9" by linarith
  moreover have "(9::rat) \<le> 2 ^ 1024"
  proof -
    have "(2::rat) ^ 4 \<le> 2 ^ 1024" by (intro power_increasing) simp_all
    then show ?thesis by simp
  qed
  ultimately have "\<not> 2 ^ 1024 \<le> y" by simp
  with pos have "float_of_rat x = Inr y"
    by (simp add: float_of_rat_def Let_def y_def ulp_def k_def)
  with close show ?thesis by blast
qed

lemma quotient_gap:
  fixes a1 a2 :: int and n1 n2 :: nat
  assumes n1: "0 < n1" and n2: "0 < n2"
    and less: "(of_int a1 :: rat) / of_nat n1 < of_int a2 / of_nat n2"
  shows "1 / (of_nat n1 * of_nat n2) \<le> (of_int a2 :: rat) / of_nat n2 - of_int a1 / of_nat n1"
proof -
  from less n1 n2 have "(of_int a1 :: rat) * of_nat n2 < of_int a2 * of_nat n1"
    by (simp add: divide_less_eq less_divide_eq field_simps)
  then have "(of_int (a1 * int n2) :: rat) < of_int (a2 * int n1)" by simp
  then have "a1 * int n2 < a2 * int n1" by (simp only: of_int_less_iff)
  then have "a1 * int n2 + 1 \<le> a2 * int n1" by simp
  then have "(of_int (a1 * int n2 + 1) :: rat) \<le> of_int (a2 * int n1)" by (simp only: of_int_le_iff)
  then have "(of_int a1 :: rat) * of_nat n2 + 1 \<le> of_int a2 * of_nat n1" by simp
  with n1 n2 show ?thesis by (simp add: field_simps)
qed

lemma float_of_rat_strict_mono:
  assumes x1: "0 < x1" and x2: "x2 < 8"
    and gap: "1 / 2 ^ 50 < x2 - x1"
    and f1: "float_of_rat x1 = Inr y1" and f2: "float_of_rat x2 = Inr y2"
  shows "y1 < y2"
proof -
  have e: "(1::rat) / 2 ^ 50 = 1 / 2 ^ 51 + 1 / 2 ^ 51" by simp
  have "(0::rat) < 1 / 2 ^ 50" by simp
  with gap have lt: "x1 < x2" by linarith
  with x1 x2 have "x1 < 8" and "0 < x2" by simp_all
  from float_of_rat_close [OF x1 \<open>x1 < 8\<close>] f1 have c1: "\<bar>y1 - x1\<bar> \<le> 1 / 2 ^ 51" by simp
  from float_of_rat_close [OF \<open>0 < x2\<close> x2] f2 have c2: "\<bar>y2 - x2\<bar> \<le> 1 / 2 ^ 51" by simp
  define eps :: rat where "eps = 1 / 2 ^ 51"
  from c1 have "y1 \<le> x1 + eps" unfolding eps_def [symmetric] by (simp add: abs_le_iff)
  moreover from c2 have "x2 - eps \<le> y2" unfolding eps_def [symmetric] by (simp add: abs_le_iff)
  moreover from gap e have "eps + eps < x2 - x1" unfolding eps_def by simp
  ultimately show ?thesis by linarith
qed

lemma sum_list_bounds:
  fixes vs :: "int list"
  assumes "\<forall>v \<in> set vs. 1 \<le> v \<and> v \<le> 5"
  shows "int (length vs) \<le> sum_list vs \<and> sum_list vs \<le> 5 * int (length vs)"
  using assms by (induction vs) auto

lemma arithmetic_mean_bounds:
  assumes ne: "row \<noteq> []" and rng: "\<forall>v \<in> set (map snd row). 1 \<le> v \<and> v \<le> 5"
  shows "1 \<le> arithmetic_mean row \<and> arithmetic_mean row \<le> 5"
proof -
  define n where "n = length row"
  define a where "a = sum_list (map snd row)"
  from ne have n: "0 < n" by (simp add: n_def)
  from sum_list_bounds [OF rng] have "int n \<le> a" and "a \<le> 5 * int n" by (simp_all add: n_def a_def)
  then have "(of_int (int n) :: rat) \<le> of_int a" and "(of_int a :: rat) \<le> of_int (5 * int n)"
    by (simp_all only: of_int_le_iff)
  then have "(of_nat n :: rat) \<le> of_int a" and "(of_int a :: rat) \<le> 5 * of_nat n" by simp_all
  with n show ?thesis
    unfolding arithmetic_mean_def a_def [symmetric] n_def [symmetric]
    by (simp add: le_divide_eq divide_le_eq)
qed

lemma truediv_mean:
  "row \<noteq> [] \<Longrightarrow> truediv (sum_list (map snd row)) (length row) = float_of_rat (arithmetic_mean row)"
  by (simp add: truediv_def arithmetic_mean_def)

lemma truediv_in_range:
  fixes row :: "(bot_id, int) dict"
  assumes ne: "row \<noteq> []" and rng: "\<forall>v \<in> set (map snd row). 1 \<le> v \<and> v \<le> 5"
  shows "\<exists>y. truediv (sum_list (map snd row)) (length row) = Inr y"
proof -
  from arithmetic_mean_bounds [OF ne rng] have "0 < arithmetic_mean row" "arithmetic_mean row < 8"
    by simp_all
  from float_of_rat_close [OF this] truediv_mean [OF ne] show ?thesis by auto
qed

lemma truediv_strict_mono:
  fixes r1 r2 :: "(bot_id, int) dict"
  assumes ne1: "r1 \<noteq> []" and rng1: "\<forall>v \<in> set (map snd r1). 1 \<le> v \<and> v \<le> 5"
    and len1: "length r1 < 2 ^ 25"
    and ne2: "r2 \<noteq> []" and rng2: "\<forall>v \<in> set (map snd r2). 1 \<le> v \<and> v \<le> 5"
    and len2: "length r2 < 2 ^ 25"
    and less: "arithmetic_mean r1 < arithmetic_mean r2"
    and f1: "truediv (sum_list (map snd r1)) (length r1) = Inr y1"
    and f2: "truediv (sum_list (map snd r2)) (length r2) = Inr y2"
  shows "y1 < y2"
proof -
  define n1 where "n1 = length r1"
  define n2 where "n2 = length r2"
  from ne1 ne2 have n1: "0 < n1" and n2: "0 < n2" by (simp_all add: n1_def n2_def)
  from len1 len2 have "n1 * n2 < 2 ^ 25 * 2 ^ 25"
    unfolding n1_def n2_def by (intro mult_strict_mono) simp_all
  then have "n1 * n2 < 2 ^ 50" by simp
  then have "(of_nat (n1 * n2) :: rat) < of_nat (2 ^ 50)" by (simp only: of_nat_less_iff)
  then have prod: "(of_nat n1 :: rat) * of_nat n2 < 2 ^ 50" by simp
  from n1 n2 have pos: "(0::rat) < of_nat n1 * of_nat n2" by simp
  from prod pos have "(1::rat) / 2 ^ 50 < 1 / (of_nat n1 * of_nat n2)"
    by (intro divide_strict_left_mono) simp_all
  also from quotient_gap [OF n1 n2, of "sum_list (map snd r1)" "sum_list (map snd r2)"] less
  have "1 / (of_nat n1 * of_nat n2) \<le> arithmetic_mean r2 - arithmetic_mean r1"
    by (simp add: arithmetic_mean_def n1_def n2_def)
  finally have gap: "1 / 2 ^ 50 < arithmetic_mean r2 - arithmetic_mean r1" .
  from arithmetic_mean_bounds [OF ne1 rng1] have x1: "0 < arithmetic_mean r1" by simp
  from arithmetic_mean_bounds [OF ne2 rng2] have x2: "arithmetic_mean r2 < 8" by simp
  from f1 truediv_mean [OF ne1] have g1: "float_of_rat (arithmetic_mean r1) = Inr y1" by simp
  from f2 truediv_mean [OF ne2] have g2: "float_of_rat (arithmetic_mean r2) = Inr y2" by simp
  from float_of_rat_strict_mono [OF x1 x2 gap g1 g2] show ?thesis .
qed

text \<open>
  \<open>binary_exponent\<close> finds the binary exponent of a positive number. A quotient of
  \<open>2 ^ 1024\<close> or more overflows, and \<open>2 ^ 53 + 1\<close>, which lies half way between two
  doubles, rounds to the even one, \<open>2 ^ 53\<close>.
\<close>

lemma bitlen_powi_bounds:
  assumes "0 < p"
  shows "(2::rat) powi (bitlen p - 1) \<le> of_int p \<and> (of_int p :: rat) < 2 powi bitlen p"
proof -
  from bitlen_bounds [OF assms] have lo: "2 ^ nat (bitlen p - 1) \<le> p" and hi: "p < 2 ^ nat (bitlen p)"
    by simp_all
  have b1: "1 \<le> bitlen p"
  proof -
    from assms have "bitlen p \<noteq> 0" by (simp add: bitlen_eq_zero_iff)
    moreover have "0 \<le> bitlen p" by (rule bitlen_nonneg)
    ultimately show ?thesis by linarith
  qed
  from lo have "(of_int (2 ^ nat (bitlen p - 1)) :: rat) \<le> of_int p" by (simp only: of_int_le_iff)
  then have "(2::rat) ^ nat (bitlen p - 1) \<le> of_int p" by simp
  moreover from b1 have "(2::rat) powi (bitlen p - 1) = 2 ^ nat (bitlen p - 1)"
    by (simp add: power_int_def)
  moreover from hi have "(of_int p :: rat) < of_int (2 ^ nat (bitlen p))" by (simp only: of_int_less_iff)
  then have "(of_int p :: rat) < 2 ^ nat (bitlen p)" by simp
  moreover from b1 have "(2::rat) powi bitlen p = 2 ^ nat (bitlen p)"
    by (simp add: power_int_def)
  ultimately show ?thesis by simp
qed

lemma binary_exponent_bounds:
  assumes pos: "0 < x"
  shows "2 powi binary_exponent x \<le> x \<and> x < 2 powi (binary_exponent x + 1)"
proof -
  obtain p q where pq: "quotient_of x = (p, q)" by (cases "quotient_of x")
  then have q: "0 < q" and x: "x = of_int p / of_int q"
    by (simp_all add: quotient_of_denom_pos quotient_of_div)
  with pos have p: "0 < p" by (simp add: zero_less_divide_iff)
  define d where "d = bitlen p - bitlen q"
  from bitlen_powi_bounds [OF p] have plo: "(2::rat) powi (bitlen p - 1) \<le> of_int p"
    and phi: "(of_int p :: rat) < 2 powi bitlen p" by simp_all
  from bitlen_powi_bounds [OF q] have qlo: "(2::rat) powi (bitlen q - 1) \<le> of_int q"
    and qhi: "(of_int q :: rat) < 2 powi bitlen q" by simp_all
  have qpos: "(0::rat) < of_int q" using q by simp
  have lower: "2 powi (d - 1) < x"
  proof -
    have "(2::rat) powi (d - 1) * of_int q < 2 powi (d - 1) * 2 powi bitlen q"
      using qhi by (intro mult_strict_left_mono) simp_all
    also have "\<dots> = 2 powi (bitlen p - 1)"
      by (simp add: d_def power_int_add [symmetric])
    also note plo
    finally show ?thesis using qpos by (simp add: x less_divide_eq)
  qed
  have upper: "x < 2 powi (d + 1)"
  proof -
    have "(of_int p :: rat) < 2 powi bitlen p" by (rule phi)
    also have "\<dots> = 2 powi (d + 1) * 2 powi (bitlen q - 1)"
      by (simp add: d_def power_int_add [symmetric])
    also have "\<dots> \<le> 2 powi (d + 1) * of_int q"
      using qlo by (intro mult_left_mono) simp_all
    finally show ?thesis using qpos by (simp add: x divide_less_eq)
  qed
  show ?thesis
  proof (cases "2 powi d \<le> x")
    case True
    with pq have "binary_exponent x = d" by (simp add: binary_exponent_def d_def)
    with True upper show ?thesis by simp
  next
    case False
    with pq have "binary_exponent x = d - 1" by (simp add: binary_exponent_def d_def)
    with False lower show ?thesis by simp
  qed
qed

lemma binary_exponent_eq:
  assumes lo: "2 powi e \<le> x" and hi: "x < 2 powi (e + 1)"
  shows "binary_exponent x = e"
proof -
  have "(0::rat) < 2 powi e" by simp
  also note lo
  finally have pos: "0 < x" .
  from binary_exponent_bounds [OF pos]
  have a: "2 powi binary_exponent x \<le> x" and b: "x < 2 powi (binary_exponent x + 1)" by simp_all
  have "\<not> e + 1 \<le> binary_exponent x"
  proof
    assume "e + 1 \<le> binary_exponent x"
    then have "(2::rat) powi (e + 1) \<le> 2 powi binary_exponent x"
      by (intro power_int_increasing) simp_all
    with a hi show False by simp
  qed
  moreover have "\<not> binary_exponent x + 1 \<le> e"
  proof
    assume "binary_exponent x + 1 \<le> e"
    then have "(2::rat) powi (binary_exponent x + 1) \<le> 2 powi e"
      by (intro power_int_increasing) simp_all
    with b lo show False by simp
  qed
  ultimately show ?thesis by simp
qed

lemma round_half_even_ge_floor: "\<lfloor>x\<rfloor> \<le> round_half_even x"
  by (simp add: round_half_even_def Let_def)

lemma float_of_rat_overflow:
  assumes big: "2 ^ 1024 \<le> x"
  shows "float_of_rat x = Inl OverflowError"
proof -
  have "(0::rat) < 2 ^ 1024" by simp
  also note big
  finally have pos: "0 < x" .
  define e where "e = binary_exponent x"
  from binary_exponent_bounds [OF pos] have lo: "2 powi e \<le> x" and hi: "x < 2 powi (e + 1)"
    by (simp_all add: e_def)
  have e: "1024 \<le> e"
  proof (rule ccontr)
    assume "\<not> 1024 \<le> e"
    then have "(2::rat) powi (e + 1) \<le> 2 powi 1024" by (intro power_int_increasing) simp_all
    with hi have "x < 2 powi 1024" by simp
    with big show False by simp
  qed
  define ulp :: rat where "ulp = 2 powi (e - 52)"
  have ulp0: "0 < ulp" by (simp add: ulp_def)
  from e have k: "max (e - 52) (- 1074) = e - 52" by simp
  have "(2::rat) powi (52 + (e - 52)) = 2 powi 52 * 2 powi (e - 52)"
    by (rule power_int_add) simp
  then have m: "(2::rat) ^ 52 * ulp = 2 powi e" by (simp add: ulp_def)
  with lo have "(2::rat) ^ 52 * ulp \<le> x" by simp
  with ulp0 have "(2::rat) ^ 52 \<le> x / ulp" by (simp add: le_divide_eq)
  then have "(of_int (2 ^ 52) :: rat) \<le> x / ulp" by simp
  then have "(2::int) ^ 52 \<le> \<lfloor>x / ulp\<rfloor>" by (simp only: le_floor_iff)
  also have "\<dots> \<le> round_half_even (x / ulp)" by (rule round_half_even_ge_floor)
  finally have "(of_int (2 ^ 52) :: rat) \<le> of_int (round_half_even (x / ulp))"
    by (simp only: of_int_le_iff)
  then have "(2::rat) ^ 52 * ulp \<le> of_int (round_half_even (x / ulp)) * ulp"
    using ulp0 by (intro mult_right_mono) simp_all
  with m have "2 powi e \<le> of_int (round_half_even (x / ulp)) * ulp" by simp
  moreover from e have "(2::rat) powi 1024 \<le> 2 powi e" by (intro power_int_increasing) simp_all
  ultimately have "(2::rat) powi 1024 \<le> of_int (round_half_even (x / ulp)) * ulp" by (rule order_trans [rotated])
  then have "(2::rat) ^ 1024 \<le> of_int (round_half_even (x / ulp)) * ulp" by simp
  with pos show ?thesis
    by (simp add: float_of_rat_def Let_def e_def [symmetric] k ulp_def [symmetric])
qed

lemma float_of_rat_tie:
  "float_of_rat (2 ^ 53) = Inr (2 ^ 53) \<and> float_of_rat (2 ^ 53 + 1) = Inr (2 ^ 53)"
proof -
  have e1: "binary_exponent (2 ^ 53) = 53" by (rule binary_exponent_eq) simp_all
  have e2: "binary_exponent (2 ^ 53 + 1) = 53" by (rule binary_exponent_eq) simp_all
  have big: "\<not> (2::rat) ^ 1024 \<le> 2 ^ 53"
  proof -
    have "(2::rat) ^ 53 < 2 ^ 1024" by (intro power_strict_increasing) simp_all
    then show ?thesis by simp
  qed
  have r1: "round_half_even (2 ^ 53 / 2) = 2 ^ 52" by (simp add: round_half_even_def Let_def)
  have "\<lfloor>((2::rat) ^ 53 + 1) / 2\<rfloor> = 2 ^ 52" by (rule floor_unique) simp_all
  then have r2: "round_half_even ((2 ^ 53 + 1) / 2) = 2 ^ 52"
    by (simp add: round_half_even_def Let_def)
  have y: "(2::rat) ^ 52 * 2 = 2 ^ 53" by simp
  have "float_of_rat (2 ^ 53) = Inr (2 ^ 53)"
    using big by (simp add: float_of_rat_def Let_def e1 r1 y del: power_numeral)
  moreover have p: "(0::rat) < 2 ^ 53 + 1" by (simp add: add_pos_pos)
  then have "(2::rat) ^ 53 + 1 \<noteq> 0" and "sgn ((2::rat) ^ 53 + 1) = 1" by simp_all
  then have "float_of_rat (2 ^ 53 + 1) = Inr (2 ^ 53)"
    using big p by (simp add: float_of_rat_def Let_def e2 r2 y del: power_numeral)
  ultimately show ?thesis by simp
qed

section \<open>Selecting the best answer: properties\<close>

lemma foldl_max_first:
  fixes p :: "'k \<times> 'v :: linorder"
  defines "step \<equiv> (\<lambda>best item. if snd best < snd item then item else best)"
  shows "\<exists>pre post. p # ps = pre @ foldl step p ps # post \<and>
           (\<forall>x \<in> set pre. snd x < snd (foldl step p ps)) \<and>
           (\<forall>x \<in> set post. snd x \<le> snd (foldl step p ps))"
proof (induction ps rule: rev_induct)
  case Nil
  show ?case
  proof (intro exI conjI)
    show "[p] = [] @ foldl step p [] # []" by simp
  qed simp_all
next
  case (snoc x ps)
  let ?r = "foldl step p ps"
  from snoc obtain pre post where dec: "p # ps = pre @ ?r # post"
    and pre: "\<forall>y \<in> set pre. snd y < snd ?r" and post: "\<forall>y \<in> set post. snd y \<le> snd ?r"
    by blast
  show ?case
  proof (cases "snd ?r < snd x")
    case True
    then have r: "foldl step p (ps @ [x]) = x" by (simp add: step_def)
    have "p # ps @ [x] = (p # ps) @ x # []" by simp
    moreover have "\<forall>y \<in> set (p # ps). snd y < snd x"
    proof
      fix y assume "y \<in> set (p # ps)"
      with dec have "y \<in> set pre \<or> y = ?r \<or> y \<in> set post" by auto
      with pre post True show "snd y < snd x" by force
    qed
    ultimately have "p # ps @ [x] = (p # ps) @ x # [] \<and>
        (\<forall>y \<in> set (p # ps). snd y < snd x) \<and> (\<forall>y \<in> set []. snd y \<le> snd x)"
      by simp
    then show ?thesis unfolding r by blast
  next
    case False
    then have r: "foldl step p (ps @ [x]) = ?r" by (simp add: step_def)
    from dec have "p # ps @ [x] = pre @ ?r # (post @ [x])" by simp
    moreover from post False have "\<forall>y \<in> set (post @ [x]). snd y \<le> snd ?r" by auto
    ultimately have "p # ps @ [x] = pre @ ?r # (post @ [x]) \<and>
        (\<forall>y \<in> set pre. snd y < snd ?r) \<and> (\<forall>y \<in> set (post @ [x]). snd y \<le> snd ?r)"
      using pre by simp
    then show ?thesis unfolding r by blast
  qed
qed

lemma py_max_first:
  assumes "d \<noteq> []"
  shows "\<exists>pre k v post. d = pre @ (k, v) # post \<and> py_max d = Inr k \<and>
           (\<forall>x \<in> set pre. snd x < v) \<and> (\<forall>x \<in> set post. snd x \<le> v)"
proof -
  from assms obtain p ps where d: "d = p # ps" by (cases d) auto
  let ?r = "foldl (\<lambda>best item. if snd best < snd item then item else best) p ps"
  from foldl_max_first [of p ps] obtain pre post where
    "p # ps = pre @ ?r # post" "\<forall>x \<in> set pre. snd x < snd ?r" "\<forall>x \<in> set post. snd x \<le> snd ?r"
    by blast
  moreover have "py_max d = Inr (fst ?r)" by (simp add: d py_max_def)
  ultimately have "d = pre @ (fst ?r, snd ?r) # post \<and> py_max d = Inr (fst ?r) \<and>
           (\<forall>x \<in> set pre. snd x < snd ?r) \<and> (\<forall>x \<in> set post. snd x \<le> snd ?r)"
    by (simp add: d)
  then show ?thesis by blast
qed

lemma avg_scores_from_map:
  "\<forall>row \<in> set (map snd scores). truediv (sum_list (map snd row)) (length row) = Inr (f row) \<Longrightarrow>
   distinct (keys acc @ keys scores) \<Longrightarrow>
   avg_scores_from scores acc = Inr (acc @ map (\<lambda>(b, row). (b, f row)) scores)"
proof (induction scores arbitrary: acc)
  case Nil
  show ?case by simp
next
  case (Cons it scores)
  obtain b row where it: "it = (b, row)" by (cases it)
  from Cons.prems(1) it have row: "truediv (sum_list (map snd row)) (length row) = Inr (f row)"
    and rest: "\<forall>row \<in> set (map snd scores). truediv (sum_list (map snd row)) (length row) = Inr (f row)"
    by auto
  from Cons.prems(2) it have fresh: "b \<notin> set (keys acc)" by (auto simp: keys_def)
  then have st: "setitem acc b (f row) = acc @ [(b, f row)]"
    by (rule setitem_fresh)
  from Cons.prems(2) it have "distinct (keys (acc @ [(b, f row)]) @ keys scores)"
    by (auto simp: keys_def)
  from Cons.IH [OF rest this]
  have "avg_scores_from scores (acc @ [(b, f row)]) =
          Inr ((acc @ [(b, f row)]) @ map (\<lambda>(b, row). (b, f row)) scores)" .
  with row st it show ?case by simp
qed

text \<open>
  Claim C9. The score table is a non-empty dict whose rows are non-empty, hold scores
  from 1 to 5 and are shorter than \<open>2 ^ 25\<close>. Then \<^verbatim>\<open>select_best_response\<close>
  returns \<^verbatim>\<open>clarifications[best]\<close> for a chatbot \<open>best\<close> whose row has the greatest
  arithmetic mean: every row before it in the table has a strictly smaller mean and
  every row after it a mean that is not greater, so of several chatbots with the
  greatest mean the first one is chosen. When \<open>best\<close> has a candidate answer, that
  answer is the result. The bounds make the rounded quotients that the code compares
  order as the exact means do.
\<close>

theorem select_best_response_max_mean:
  assumes ne: "scores \<noteq> []"
    and d: "distinct (keys scores)"
    and rows: "\<forall>row \<in> set (map snd scores).
                 row \<noteq> [] \<and> length row < 2 ^ 25 \<and> (\<forall>v \<in> set (map snd row). 1 \<le> v \<and> v \<le> 5)"
  shows "\<exists>pre best row post.
           scores = pre @ (best, row) # post \<and>
           (\<forall>r \<in> set (map snd pre). arithmetic_mean r < arithmetic_mean row) \<and>
           (\<forall>r \<in> set (map snd post). arithmetic_mean r \<le> arithmetic_mean row) \<and>
           select_best_response clarifications scores = getitem clarifications best \<and>
           (\<forall>a. map_of clarifications best = Some a \<longrightarrow>
              select_best_response clarifications scores = Inr a)"
proof -
  define fl :: "(bot_id, int) dict \<Rightarrow> rat" where
    "fl row = (case truediv (sum_list (map snd row)) (length row) of Inr y \<Rightarrow> y | Inl e \<Rightarrow> 0)" for row
  have fl: "truediv (sum_list (map snd row)) (length row) = Inr (fl row)"
    if "row \<in> set (map snd scores)" for row
  proof -
    from that rows have "row \<noteq> []" and "\<forall>v \<in> set (map snd row). 1 \<le> v \<and> v \<le> 5" by blast+
    from truediv_in_range [OF this] show ?thesis by (auto simp: fl_def)
  qed
  have less: "fl r1 < fl r2"
    if "r1 \<in> set (map snd scores)" "r2 \<in> set (map snd scores)"
       "arithmetic_mean r1 < arithmetic_mean r2" for r1 r2
  proof -
    from that(1) rows have a: "r1 \<noteq> []" "\<forall>v \<in> set (map snd r1). 1 \<le> v \<and> v \<le> 5" "length r1 < 2 ^ 25"
      by blast+
    from that(2) rows have b: "r2 \<noteq> []" "\<forall>v \<in> set (map snd r2). 1 \<le> v \<and> v \<le> 5" "length r2 < 2 ^ 25"
      by blast+
    from truediv_strict_mono [OF a b that(3) fl [OF that(1)] fl [OF that(2)]] show ?thesis .
  qed
  have same: "fl r1 = fl r2"
    if "r1 \<in> set (map snd scores)" "r2 \<in> set (map snd scores)"
       "arithmetic_mean r1 = arithmetic_mean r2" for r1 r2
  proof -
    from that(1,2) rows have "r1 \<noteq> []" "r2 \<noteq> []" by blast+
    with that(3) fl [OF that(1)] fl [OF that(2)] show ?thesis by (simp add: truediv_mean)
  qed
  let ?f = "\<lambda>(b, row). (b, fl row)"
  from fl have "\<forall>row \<in> set (map snd scores). truediv (sum_list (map snd row)) (length row) = Inr (fl row)"
    by blast
  from avg_scores_from_map [OF this, of "[]"] d
  have avg: "avg_scores_from scores [] = Inr (map ?f scores)" by (simp add: keys_def)
  from ne have "map ?f scores \<noteq> []" by simp
  from py_max_first [OF this] obtain pre' k v post' where
    dec': "map ?f scores = pre' @ (k, v) # post'" and mx: "py_max (map ?f scores) = Inr k" and
    pre': "\<forall>x \<in> set pre'. snd x < v" and post': "\<forall>x \<in> set post'. snd x \<le> v"
    by blast
  from dec' obtain pre it post where sc: "scores = pre @ it # post" and
    p1: "pre' = map ?f pre" and p2: "(k, v) = ?f it" and p3: "post' = map ?f post"
    by (auto simp: map_eq_append_conv map_eq_Cons_conv)
  obtain best row where it: "it = (best, row)" by (cases it)
  with p2 have k: "k = best" and v: "v = fl row" by simp_all
  from sc it have row_in: "row \<in> set (map snd scores)" by force
  have a1: "\<forall>r \<in> set (map snd pre). arithmetic_mean r < arithmetic_mean row"
  proof
    fix r assume r: "r \<in> set (map snd pre)"
    with sc have r_in: "r \<in> set (map snd scores)" by auto
    from r pre' p1 v have lt: "fl r < fl row" by auto
    show "arithmetic_mean r < arithmetic_mean row"
    proof (rule ccontr)
      assume "\<not> arithmetic_mean r < arithmetic_mean row"
      then consider "arithmetic_mean r = arithmetic_mean row" | "arithmetic_mean row < arithmetic_mean r"
        by fastforce
      then show False
      proof cases
        case 1
        from same [OF r_in row_in 1] lt show False by simp
      next
        case 2
        from less [OF row_in r_in 2] lt show False by simp
      qed
    qed
  qed
  have a2: "\<forall>r \<in> set (map snd post). arithmetic_mean r \<le> arithmetic_mean row"
  proof
    fix r assume r: "r \<in> set (map snd post)"
    with sc have r_in: "r \<in> set (map snd scores)" by auto
    from r post' p3 v have le: "fl r \<le> fl row" by auto
    show "arithmetic_mean r \<le> arithmetic_mean row"
    proof (rule ccontr)
      assume "\<not> arithmetic_mean r \<le> arithmetic_mean row"
      then have "arithmetic_mean row < arithmetic_mean r" by simp
      from less [OF row_in r_in this] le show False by simp
    qed
  qed
  from avg mx k have g: "select_best_response clarifications scores = getitem clarifications best"
    by (simp add: select_best_response_def)
  then have "\<forall>a. map_of clarifications best = Some a \<longrightarrow>
              select_best_response clarifications scores = Inr a"
    by (simp add: getitem_def)
  with sc it a1 a2 g show ?thesis by blast
qed

theorem select_best_response_max_mean_witness:
  "tied_scores \<noteq> [] \<and> distinct (keys tied_scores) \<and>
   select_best_response clarified tied_scores = Inr (answer ''HOL is a prover, as I said.'')"
proof -
  have ne: "tied_scores \<noteq> []" by (simp add: tied_scores_def)
  have d: "distinct (keys tied_scores)" by (simp add: tied_scores_def keys_def)
  have rows: "\<forall>row \<in> set (map snd tied_scores).
                 row \<noteq> [] \<and> length row < 2 ^ 25 \<and> (\<forall>v \<in> set (map snd row). 1 \<le> v \<and> v \<le> 5)"
    by (simp add: tied_scores_def)
  from select_best_response_max_mean [OF ne d rows, of clarified]
  obtain pre best row post where
    dec: "tied_scores = pre @ (best, row) # post" and
    lo: "\<forall>r \<in> set (map snd pre). arithmetic_mean r < arithmetic_mean row" and
    hi: "\<forall>r \<in> set (map snd post). arithmetic_mean r \<le> arithmetic_mean row" and
    s: "select_best_response clarified tied_scores = getitem clarified best"
    by blast
  from dec lo hi have "best = ''B''"
    by (auto simp: tied_scores_def Cons_eq_append_conv arithmetic_mean_def)
  with s have "select_best_response clarified tied_scores
                 = Inr (answer ''HOL is a prover, as I said.'')"
    by (simp add: clarified_def getitem_def)
  with ne d show ?thesis by simp
qed

text \<open>
  Outside these bounds the code compares floats that need not order as the means do.
  With the scores \<open>2 ^ 53\<close> and \<open>2 ^ 53 + 1\<close> the two floats are equal and the first
  chatbot is selected although the second has the greater mean, and a score of
  \<open>10 ^ 400\<close> raises \<^verbatim>\<open>OverflowError\<close>.
\<close>

lemma select_best_response_tie:
  "select_best_response clarifications
     [(''A'', [(''x'', 2 ^ 53)]), (''B'', [(''x'', 2 ^ 53 + 1)])]
   = getitem clarifications ''A''"
proof -
  have a: "truediv (2 ^ 53) (Suc 0) = Inr (2 ^ 53)"
    using float_of_rat_tie by (simp add: truediv_def del: power_numeral)
  have b: "truediv (2 ^ 53 + 1) (Suc 0) = Inr (2 ^ 53)"
    using float_of_rat_tie by (simp add: truediv_def del: power_numeral)
  show ?thesis
    by (simp add: select_best_response_def a b py_max_def del: power_numeral)
qed

lemma select_best_response_overflow:
  "select_best_response clarifications [(''A'', [(''x'', 10 ^ 400)])] = Inl OverflowError"
proof -
  have "(2::rat) ^ 1024 \<le> 10 ^ 400" by simp
  then have "float_of_rat (10 ^ 400) = Inl OverflowError" by (rule float_of_rat_overflow)
  then have "truediv (10 ^ 400) (Suc 0) = Inl OverflowError"
    by (simp add: truediv_def del: power_numeral)
  then show ?thesis by (simp add: select_best_response_def del: power_numeral)
qed

section \<open>The clarification loop: properties\<close>

lemma foldl_min_first:
  fixes p :: "'k \<times> 'v :: linorder"
  defines "step \<equiv> (\<lambda>best item. if snd item < snd best then item else best)"
  shows "\<exists>pre post. p # ps = pre @ foldl step p ps # post \<and>
           (\<forall>x \<in> set pre. snd (foldl step p ps) < snd x) \<and>
           (\<forall>x \<in> set post. snd (foldl step p ps) \<le> snd x)"
proof (induction ps rule: rev_induct)
  case Nil
  show ?case
  proof (intro exI conjI)
    show "[p] = [] @ foldl step p [] # []" by simp
  qed simp_all
next
  case (snoc x ps)
  let ?r = "foldl step p ps"
  from snoc obtain pre post where dec: "p # ps = pre @ ?r # post"
    and pre: "\<forall>y \<in> set pre. snd ?r < snd y" and post: "\<forall>y \<in> set post. snd ?r \<le> snd y"
    by blast
  show ?case
  proof (cases "snd x < snd ?r")
    case True
    then have r: "foldl step p (ps @ [x]) = x" by (simp add: step_def)
    have "\<forall>y \<in> set (p # ps). snd x < snd y"
    proof
      fix y assume "y \<in> set (p # ps)"
      with dec have "y \<in> set pre \<or> y = ?r \<or> y \<in> set post" by auto
      with pre post True show "snd x < snd y" by force
    qed
    then have "p # ps @ [x] = (p # ps) @ x # [] \<and>
        (\<forall>y \<in> set (p # ps). snd x < snd y) \<and> (\<forall>y \<in> set []. snd x \<le> snd y)"
      by simp
    then show ?thesis unfolding r by blast
  next
    case False
    then have r: "foldl step p (ps @ [x]) = ?r" by (simp add: step_def)
    from post False have "\<forall>y \<in> set (post @ [x]). snd ?r \<le> snd y" by auto
    with dec pre have "p # ps @ [x] = pre @ ?r # (post @ [x]) \<and>
        (\<forall>y \<in> set pre. snd ?r < snd y) \<and> (\<forall>y \<in> set (post @ [x]). snd ?r \<le> snd y)"
      by simp
    then show ?thesis unfolding r by blast
  qed
qed

lemma py_min_first:
  assumes "py_min d = Inr k"
  shows "\<exists>pre v post. d = pre @ (k, v) # post \<and>
           (\<forall>x \<in> set pre. v < snd x) \<and> (\<forall>x \<in> set post. v \<le> snd x)"
proof -
  from assms obtain p ps where d: "d = p # ps" by (cases d) (auto simp: py_min_def)
  let ?r = "foldl (\<lambda>best item. if snd item < snd best then item else best) p ps"
  from foldl_min_first [of p ps] obtain pre post where
    "p # ps = pre @ ?r # post" "\<forall>x \<in> set pre. snd ?r < snd x" "\<forall>x \<in> set post. snd ?r \<le> snd x"
    by blast
  moreover from assms have "k = fst ?r" by (simp add: d py_min_def)
  ultimately have "d = pre @ (k, snd ?r) # post \<and>
           (\<forall>x \<in> set pre. snd ?r < snd x) \<and> (\<forall>x \<in> set post. snd ?r \<le> snd x)"
    by (simp add: d)
  then show ?thesis by blast
qed

lemma clarify_loop_step:
  assumes "clarify_loop E responses ((b, row) # rest) acc w = (Inr clar, w')"
  shows "\<exists>P r q u a w1.
           py_min row = Inr P \<and> getitem responses P = Inr (Inr r) \<and>
           generate_clarification_question r = Inr q \<and>
           getitem (CHATBOT_APIS E) b = Inr u \<and>
           send_to_chatbot E w b u q = (Inr a, w1) \<and>
           clarify_loop E responses rest (setitem acc b a) w1 = (Inr clar, w')"
  using assms by (auto split: sum.splits prod.splits)

lemma clarify_loop_inv:
  assumes "clarify_loop E responses items acc w = (Inr clar, w')"
    and "distinct (keys items)"
    and "set (keys items) \<inter> set (keys acc) = {}"
  shows "keys clar = keys acc @ keys items \<and>
         (\<forall>k. k \<notin> set (keys items) \<longrightarrow> map_of clar k = map_of acc k) \<and>
         (\<forall>(b, row) \<in> set items.
            \<exists>P r q u a wb wb'.
              py_min row = Inr P \<and> getitem responses P = Inr (Inr r) \<and>
              generate_clarification_question r = Inr q \<and>
              getitem (CHATBOT_APIS E) b = Inr u \<and>
              send_to_chatbot E wb b u q = (Inr a, wb') \<and>
              getitem clar b = Inr a)"
  using assms
proof (induction items arbitrary: acc w)
  case Nil
  then show ?case by (simp add: keys_def)
next
  case (Cons it items)
  obtain b row where it: "it = (b, row)" by (cases it)
  from clarify_loop_step [OF Cons.prems(1) [unfolded it]]
  obtain P r q u a w1 where
    mn: "py_min row = Inr P" and rs: "getitem responses P = Inr (Inr r)" and
    gq: "generate_clarification_question r = Inr q" and
    ur: "getitem (CHATBOT_APIS E) b = Inr u" and
    sd: "send_to_chatbot E w b u q = (Inr a, w1)" and
    rest: "clarify_loop E responses items (setitem acc b a) w1 = (Inr clar, w')"
    by blast
  from Cons.prems(2) it have d: "distinct (keys items)" and bn: "b \<notin> set (keys items)"
    by (simp_all add: keys_def)
  from Cons.prems(3) it have fresh: "b \<notin> set (keys acc)" by (simp add: keys_def)
  then have ka: "keys (setitem acc b a) = keys acc @ [b]" by (simp add: keys_setitem)
  with Cons.prems(3) bn it have dj: "set (keys items) \<inter> set (keys (setitem acc b a)) = {}"
    by (auto simp: keys_def)
  note ih = Cons.IH [OF rest d dj]
  from ih ka it have k: "keys clar = keys acc @ keys (it # items)" by (simp add: keys_def)
  from ih bn have "map_of clar b = map_of (setitem acc b a) b" by blast
  then have gb: "getitem clar b = Inr a" by (simp add: map_of_setitem getitem_def)
  have others: "\<forall>k. k \<notin> set (keys (it # items)) \<longrightarrow> map_of clar k = map_of acc k"
  proof (intro allI impI)
    fix k assume "k \<notin> set (keys (it # items))"
    with it have "k \<noteq> b" and "k \<notin> set (keys items)" by (simp_all add: keys_def)
    with ih show "map_of clar k = map_of acc k" by (simp add: map_of_setitem)
  qed
  have here: "\<exists>P r q u a wb wb'.
              py_min row = Inr P \<and> getitem responses P = Inr (Inr r) \<and>
              generate_clarification_question r = Inr q \<and>
              getitem (CHATBOT_APIS E) b = Inr u \<and>
              send_to_chatbot E wb b u q = (Inr a, wb') \<and>
              getitem clar b = Inr a"
    using mn rs gq ur sd gb by blast
  from ih have "\<forall>(b, row) \<in> set items.
            \<exists>P r q u a wb wb'.
              py_min row = Inr P \<and> getitem responses P = Inr (Inr r) \<and>
              generate_clarification_question r = Inr q \<and>
              getitem (CHATBOT_APIS E) b = Inr u \<and>
              send_to_chatbot E wb b u q = (Inr a, wb') \<and>
              getitem clar b = Inr a" by blast
  with here it have "\<forall>(b, row) \<in> set (it # items).
            \<exists>P r q u a wb wb'.
              py_min row = Inr P \<and> getitem responses P = Inr (Inr r) \<and>
              generate_clarification_question r = Inr q \<and>
              getitem (CHATBOT_APIS E) b = Inr u \<and>
              send_to_chatbot E wb b u q = (Inr a, wb') \<and>
              getitem clar b = Inr a" by simp
  with k others show ?case by blast
qed

lemma clarify_loop_append:
  "clarify_loop E responses (xs @ ys) acc w =
     (case clarify_loop E responses xs acc w of
        (Inl e, w1) \<Rightarrow> (Inl e, w1)
      | (Inr acc1, w1) \<Rightarrow> clarify_loop E responses ys acc1 w1)"
proof (induction xs arbitrary: acc w)
  case Nil
  show ?case by simp
next
  case (Cons it xs)
  obtain b row where it: "it = (b, row)" by (cases it)
  show ?case unfolding it append_Cons clarify_loop.simps
    by (simp add: Cons.IH split: sum.splits prod.splits)
qed

lemma generate_clarification_question_Inr:
  assumes "generate_clarification_question r = Inr q"
  shows "\<exists>t. choices_0_text r = Inr (JStr t) \<and>
             q = (case findall_q t of
                    [] \<Rightarrow> ''Can you provide more details about: '' @ take 100 t
                  | m # ms \<Rightarrow> ''Can you clarify the following: '' @ m)"
  using assms
  by (auto simp: generate_clarification_question_def split: sum.splits json.splits list.splits)

text \<open>
  Claim C8, as the code has it. The loop over the first score table completes only if
  no row of the table is empty. When it completes, the clarifications have exactly the
  keys of the score table, in the same order, and for every chatbot \<open>B\<close> of the table,
  with its row of scores: there is a peer \<open>P\<close> in that row whose score \<open>v\<close> is the
  lowest of the row (strictly lower than every score before it, so the first of several
  lowest ones); the answer of \<open>P\<close> in \<open>responses\<close> has a text \<open>t\<close>, and the question
  is built from \<open>t\<close>, from its first match of the question pattern or else from its
  first 100 characters; the question is sent to \<open>B\<close> itself, at the URL of \<open>B\<close>, in
  the world left by the loop over the chatbots before \<open>B\<close>; the loop up to and
  including \<open>B\<close> ends in the world left by that request; and the answer to the
  question is the entry of \<open>B\<close> in the clarifications.
\<close>

theorem clarify_loop_entries:
  assumes d: "distinct (keys scores)"
    and run: "clarify_loop E responses scores [] w = (Inr clarifications, w')"
  shows "keys clarifications = keys scores \<and> [] \<notin> set (map snd scores) \<and>
         (\<forall>pre B row post. scores = pre @ (B, row) # post \<longrightarrow>
            (\<exists>P v rpre rpost r t u a before w_before w_after.
               row = rpre @ (P, v) # rpost \<and>
               (\<forall>x \<in> set rpre. v < snd x) \<and> (\<forall>x \<in> set rpost. v \<le> snd x) \<and>
               getitem responses P = Inr (Inr r) \<and> choices_0_text r = Inr (JStr t) \<and>
               getitem (CHATBOT_APIS E) B = Inr u \<and>
               clarify_loop E responses pre [] w = (Inr before, w_before) \<and>
               send_to_chatbot E w_before B u
                   (case findall_q t of
                      [] \<Rightarrow> ''Can you provide more details about: '' @ take 100 t
                    | m # ms \<Rightarrow> ''Can you clarify the following: '' @ m)
                 = (Inr a, w_after) \<and>
               clarify_loop E responses (pre @ [(B, row)]) [] w
                 = (Inr (before @ [(B, a)]), w_after) \<and>
               getitem clarifications B = Inr a))"
proof -
  have dj: "set (keys scores) \<inter> set (keys ([] :: (bot_id, json) dict)) = {}"
    by (simp add: keys_def)
  from clarify_loop_inv [OF run d dj] have k: "keys clarifications = keys scores"
    by (simp add: keys_def)
  have each: "\<exists>P v rpre rpost r t u a before w_before w_after.
               row = rpre @ (P, v) # rpost \<and>
               (\<forall>x \<in> set rpre. v < snd x) \<and> (\<forall>x \<in> set rpost. v \<le> snd x) \<and>
               getitem responses P = Inr (Inr r) \<and> choices_0_text r = Inr (JStr t) \<and>
               getitem (CHATBOT_APIS E) B = Inr u \<and>
               clarify_loop E responses pre [] w = (Inr before, w_before) \<and>
               send_to_chatbot E w_before B u
                   (case findall_q t of
                      [] \<Rightarrow> ''Can you provide more details about: '' @ take 100 t
                    | m # ms \<Rightarrow> ''Can you clarify the following: '' @ m)
                 = (Inr a, w_after) \<and>
               clarify_loop E responses (pre @ [(B, row)]) [] w
                 = (Inr (before @ [(B, a)]), w_after) \<and>
               getitem clarifications B = Inr a"
    if sc: "scores = pre @ (B, row) # post" for pre B row post
  proof -
    from d sc have dpre: "distinct (keys pre)" and dpost: "distinct (keys post)"
      and Bpre: "B \<notin> set (keys pre)" and Bpost: "B \<notin> set (keys post)"
      and prepost: "set (keys pre) \<inter> set (keys post) = {}"
      by (auto simp: keys_def)
    from run sc obtain before w_before where
      pre_run: "clarify_loop E responses pre [] w = (Inr before, w_before)" and
      tail_run: "clarify_loop E responses ((B, row) # post) before w_before = (Inr clarifications, w')"
      by (auto simp: clarify_loop_append [of E responses pre "(B, row) # post"]
               split: sum.splits prod.splits)
    from clarify_loop_step [OF tail_run] obtain P r q u a w_after where
      mn: "py_min row = Inr P" and rs: "getitem responses P = Inr (Inr r)" and
      gq: "generate_clarification_question r = Inr q" and
      ur: "getitem (CHATBOT_APIS E) B = Inr u" and
      sd: "send_to_chatbot E w_before B u q = (Inr a, w_after)" and
      post_run: "clarify_loop E responses post (setitem before B a) w_after = (Inr clarifications, w')"
      by blast
    have "set (keys pre) \<inter> set (keys ([] :: (bot_id, json) dict)) = {}" by (simp add: keys_def)
    from clarify_loop_inv [OF pre_run dpre this] have kb: "keys before = keys pre"
      by (simp add: keys_def)
    with Bpre have st: "setitem before B a = before @ [(B, a)]" by (simp add: setitem_fresh)
    from kb prepost Bpost have "set (keys post) \<inter> set (keys (setitem before B a)) = {}"
      by (auto simp: st keys_def)
    from clarify_loop_inv [OF post_run dpost this] Bpost
    have "map_of clarifications B = map_of (setitem before B a) B" by blast
    then have gb: "getitem clarifications B = Inr a" by (simp add: map_of_setitem getitem_def)
    from mn rs gq ur sd st
    have "clarify_loop E responses [(B, row)] before w_before = (Inr (before @ [(B, a)]), w_after)"
      by simp
    with pre_run
    have one: "clarify_loop E responses (pre @ [(B, row)]) [] w = (Inr (before @ [(B, a)]), w_after)"
      by (simp add: clarify_loop_append [of E responses pre "[(B, row)]"])
    from generate_clarification_question_Inr [OF gq] obtain t where
      t: "choices_0_text r = Inr (JStr t)" and
      q: "q = (case findall_q t of
                 [] \<Rightarrow> ''Can you provide more details about: '' @ take 100 t
               | m # ms \<Rightarrow> ''Can you clarify the following: '' @ m)"
      by blast
    from py_min_first [OF mn] obtain rpre v rpost where
      row: "row = rpre @ (P, v) # rpost" "\<forall>x \<in> set rpre. v < snd x" "\<forall>x \<in> set rpost. v \<le> snd x"
      by blast
    from row rs t ur pre_run sd [unfolded q] one gb show ?thesis by blast
  qed
  have "[] \<notin> set (map snd scores)"
  proof
    assume "[] \<in> set (map snd scores)"
    then obtain B where "(B, []) \<in> set scores" by auto
    then obtain pre post where "scores = pre @ (B, []) # post" by (meson split_list)
    from each [OF this] show False by auto
  qed
  with k each show ?thesis by blast
qed

theorem clarify_loop_entries_witness:
  "distinct (keys tied_scores) \<and>
   clarify_loop three_bots all_answered tied_scores []
       [ok_reply ''HOL is a logic, as I said.'', ok_reply ''HOL is a prover, as I said.'',
        ok_reply ''HOL is a library, as I said.'']
     = (Inr clarified, []) \<and>
   keys clarified = [''A'', ''B'', ''C''] \<and> [] \<notin> set (map snd tied_scores)"
proof -
  have d: "distinct (keys tied_scores)" by (simp add: tied_scores_def keys_def)
  have run: "clarify_loop three_bots all_answered tied_scores []
       [ok_reply ''HOL is a logic, as I said.'', ok_reply ''HOL is a prover, as I said.'',
        ok_reply ''HOL is a library, as I said.'']
     = (Inr clarified, [])"
    by code_simp
  have k: "keys tied_scores = [''A'', ''B'', ''C'']" by (simp add: tied_scores_def keys_def)
  from clarify_loop_entries [OF d run]
  have "keys clarified = keys tied_scores" and ne: "[] \<notin> set (map snd tied_scores)" by blast+
  then have "keys clarified = [''A'', ''B'', ''C'']" using k by simp
  with d run ne show ?thesis by blast
qed

text \<open>
  Claim C8, as the specification words it: for every chatbot of the first score table.
  In the first round \<open>one_failed\<close> the chatbot \<^verbatim>\<open>C\<close> timed out, so its row of the first
  score table is empty. The loop asks \<^verbatim>\<open>A\<close> and \<^verbatim>\<open>B\<close>, then \<^verbatim>\<open>min\<close> over the row
  of \<^verbatim>\<open>C\<close> raises \<^verbatim>\<open>ValueError\<close>: no peer is found for \<^verbatim>\<open>C\<close> and there is no
  clarification map.
\<close>

theorem clarify_loop_empty_row_counterexample:
  "evaluate_responses three_bots [ok_reply ''4'', ok_reply ''2''] one_failed
     = (Inr [(''A'', [(''B'', 4)]), (''B'', [(''A'', 2)]), (''C'', [])], []) \<and>
   clarify_loop three_bots one_failed
       [(''A'', [(''B'', 4)]), (''B'', [(''A'', 2)]), (''C'', [])] []
       [ok_reply ''HOL is a logic, as I said.'', ok_reply ''HOL is a prover, as I said.'']
     = (Inl ValueError, [])"
  by code_simp

text \<open>
  The loop completes when no row is empty, every scored peer has an answer whose text is
  a string, every chatbot of the table has a URL and a credential, and the network only
  fails with client errors.
\<close>

lemma send_to_chatbot_returns:
  assumes key: "getitem (API_KEYS E) b = Inr key"
    and net: "\<forall>w rq e w'. post_json E w rq = (Inl e, w') \<longrightarrow> isinstance_ClientError e"
  shows "\<exists>a w'. send_to_chatbot E w b u q = (Inr a, w')"
proof -
  let ?rq = "\<lparr>req_url = u, req_authorization = ''Bearer '' @ key,
              req_prompt = q, req_max_tokens = 150\<rparr>"
  obtain out w' where p: "post_json E w ?rq = (out, w')" by (cases "post_json E w ?rq")
  show ?thesis
  proof (cases out)
    case (Inl e)
    with p net have "isinstance_ClientError e" by blast
    with key p Inl show ?thesis by (simp add: send_to_chatbot_def)
  next
    case (Inr v)
    with key p show ?thesis by (simp add: send_to_chatbot_def)
  qed
qed

lemma py_min_returns:
  assumes "row \<noteq> []"
  shows "\<exists>P. py_min row = Inr P \<and> P \<in> set (keys row)"
proof -
  from assms obtain p ps where "row = p # ps" by (cases row) auto
  then have "\<exists>P. py_min row = Inr P" by (simp add: py_min_def)
  then obtain P where P: "py_min row = Inr P" by blast
  from py_min_first [OF P] have "P \<in> set (keys row)" by (auto simp: keys_def)
  with P show ?thesis by blast
qed

lemma generate_clarification_question_returns:
  "choices_0_text r = Inr (JStr t) \<Longrightarrow> \<exists>q. generate_clarification_question r = Inr q"
  by (simp add: generate_clarification_question_def split: list.splits)

lemma clarify_loop_returns:
  assumes net: "\<forall>w rq e w'. post_json E w rq = (Inl e, w') \<longrightarrow> isinstance_ClientError e"
  shows "\<forall>it \<in> set items.
           snd it \<noteq> [] \<and>
           (\<forall>P \<in> set (keys (snd it)). \<exists>r t. getitem responses P = Inr (Inr r) \<and>
                                               choices_0_text r = Inr (JStr t)) \<and>
           (\<exists>u. getitem (CHATBOT_APIS E) (fst it) = Inr u) \<and>
           (\<exists>key. getitem (API_KEYS E) (fst it) = Inr key) \<Longrightarrow>
         \<exists>clar w'. clarify_loop E responses items acc w = (Inr clar, w')"
proof (induction items arbitrary: acc w)
  case Nil
  show ?case by simp
next
  case (Cons it items)
  obtain b row where it: "it = (b, row)" by (cases it)
  from Cons.prems it have row: "row \<noteq> []"
    and ps: "\<forall>P \<in> set (keys row). \<exists>r t. getitem responses P = Inr (Inr r) \<and>
                                         choices_0_text r = Inr (JStr t)"
    and u: "\<exists>u. getitem (CHATBOT_APIS E) b = Inr u"
    and k: "\<exists>key. getitem (API_KEYS E) b = Inr key"
    by simp_all
  from py_min_returns [OF row] obtain P where P: "py_min row = Inr P" "P \<in> set (keys row)"
    by blast
  with ps obtain r t where r: "getitem responses P = Inr (Inr r)" "choices_0_text r = Inr (JStr t)"
    by blast
  from generate_clarification_question_returns [OF r(2)] obtain q where
    q: "generate_clarification_question r = Inr q" by blast
  from u obtain url where url: "getitem (CHATBOT_APIS E) b = Inr url" by blast
  from k obtain key where key: "getitem (API_KEYS E) b = Inr key" by blast
  from send_to_chatbot_returns [OF key net] obtain a w1 where
    sd: "send_to_chatbot E w b url q = (Inr a, w1)" by blast
  from Cons.prems have "\<forall>it \<in> set items.
           snd it \<noteq> [] \<and>
           (\<forall>P \<in> set (keys (snd it)). \<exists>r t. getitem responses P = Inr (Inr r) \<and>
                                               choices_0_text r = Inr (JStr t)) \<and>
           (\<exists>u. getitem (CHATBOT_APIS E) (fst it) = Inr u) \<and>
           (\<exists>key. getitem (API_KEYS E) (fst it) = Inr key)"
    by simp
  from Cons.IH [OF this] obtain clar w' where
    "clarify_loop E responses items (setitem acc b a) w1 = (Inr clar, w')" by blast
  with it P(1) r(1) q url sd show ?case by simp
qed

section \<open>The final score table: properties\<close>

text \<open>
  Every score in a table returned by \<^verbatim>\<open>evaluate_responses\<close> lies between 1 and 5.
\<close>

lemma setitem2_in_range:
  assumes st: "setitem2 scores b1 b2 v = Inr scores'"
    and v: "1 \<le> v \<and> v \<le> 5"
    and rng: "\<forall>row \<in> set (map snd scores). \<forall>x \<in> set (map snd row). 1 \<le> x \<and> x \<le> 5"
  shows "\<forall>row \<in> set (map snd scores'). \<forall>x \<in> set (map snd row). 1 \<le> x \<and> x \<le> 5"
proof -
  from st obtain row where row: "map_of scores b1 = Some row"
    and s': "scores' = setitem scores b1 (setitem row b2 v)"
    by (auto simp: setitem2_def getitem_def split: option.splits)
  from row have "(b1, row) \<in> set scores" by (rule map_of_SomeD)
  with rng have r: "\<forall>x \<in> set (map snd row). 1 \<le> x \<and> x \<le> 5" by force
  have new: "\<forall>x \<in> set (map snd (setitem row b2 v)). 1 \<le> x \<and> x \<le> 5"
  proof
    fix x assume "x \<in> set (map snd (setitem row b2 v))"
    then obtain k where "(k, x) \<in> set (setitem row b2 v)" by auto
    with set_setitem [of row b2 v] have "(k, x) = (b2, v) \<or> (k, x) \<in> set row" by auto
    with v r show "1 \<le> x \<and> x \<le> 5" by force
  qed
  show ?thesis
  proof
    fix rw assume "rw \<in> set (map snd scores')"
    then obtain k where "(k, rw) \<in> set scores'" by auto
    with s' set_setitem [of scores b1 "setitem row b2 v"]
    have "(k, rw) = (b1, setitem row b2 v) \<or> (k, rw) \<in> set scores" by auto
    with new rng show "\<forall>x \<in> set (map snd rw). 1 \<le> x \<and> x \<le> 5" by force
  qed
qed

lemma inner_loop_in_range:
  "inner_loop E b1 items scores w = (Inr scores', w') \<Longrightarrow>
   \<forall>row \<in> set (map snd scores). \<forall>x \<in> set (map snd row). 1 \<le> x \<and> x \<le> 5 \<Longrightarrow>
   \<forall>row \<in> set (map snd scores'). \<forall>x \<in> set (map snd row). 1 \<le> x \<and> x \<le> 5"
proof (induction items arbitrary: scores w)
  case Nil
  then show ?case by simp
next
  case (Cons it items)
  obtain b2 r2 where it: "it = (b2, r2)" by (cases it)
  show ?case
  proof (cases r2)
    case (Inl exc)
    with Cons.prems it have "inner_loop E b1 items scores w = (Inr scores', w')" by simp
    from Cons.IH [OF this Cons.prems(2)] show ?thesis .
  next
    case (Inr r)
    show ?thesis
    proof (cases "b1 = b2")
      case True
      with Cons.prems it Inr have "inner_loop E b1 items scores w = (Inr scores', w')" by simp
      from Cons.IH [OF this Cons.prems(2)] show ?thesis .
    next
      case False
      with Cons.prems(1) it Inr obtain v w1 s1 where
        ev: "evaluate_response E w b1 r = (Inr v, w1)" and
        st: "setitem2 scores b1 b2 v = Inr s1" and
        rest: "inner_loop E b1 items s1 w1 = (Inr scores', w')"
        by (auto split: prod.splits sum.splits)
      from evaluate_response_range [OF ev] have "1 \<le> v \<and> v \<le> 5" .
      from Cons.IH [OF rest setitem2_in_range [OF st this Cons.prems(2)]] show ?thesis .
    qed
  qed
qed

lemma outer_loop_in_range:
  "outer_loop E responses items scores w = (Inr scores', w') \<Longrightarrow>
   \<forall>row \<in> set (map snd scores). \<forall>x \<in> set (map snd row). 1 \<le> x \<and> x \<le> 5 \<Longrightarrow>
   \<forall>row \<in> set (map snd scores'). \<forall>x \<in> set (map snd row). 1 \<le> x \<and> x \<le> 5"
proof (induction items arbitrary: scores w)
  case Nil
  then show ?case by simp
next
  case (Cons it items)
  obtain b1 r1 where it: "it = (b1, r1)" by (cases it)
  show ?case
  proof (cases r1)
    case (Inl exc)
    with Cons.prems it have "outer_loop E responses items scores w = (Inr scores', w')" by simp
    from Cons.IH [OF this Cons.prems(2)] show ?thesis .
  next
    case (Inr r)
    with Cons.prems(1) it obtain w1 s1 where
      inner: "inner_loop E b1 responses scores w = (Inr s1, w1)" and
      rest: "outer_loop E responses items s1 w1 = (Inr scores', w')"
      by (auto split: prod.splits sum.splits)
    from Cons.IH [OF rest inner_loop_in_range [OF inner Cons.prems(2)]] show ?thesis .
  qed
qed

lemma evaluate_responses_in_range:
  assumes "evaluate_responses E w responses = (Inr scores, w')"
  shows "\<forall>row \<in> set (map snd scores). \<forall>x \<in> set (map snd row). 1 \<le> x \<and> x \<le> 5"
proof -
  define init :: score_table
    where "init = dict_of_pairs (map (\<lambda>chatbot. (chatbot, [])) (keys responses))"
  have "\<forall>row \<in> set (map snd init). \<forall>x \<in> set (map snd row). 1 \<le> x \<and> x \<le> 5"
  proof
    fix row assume "row \<in> set (map snd init)"
    then obtain k where "(k, row) \<in> set init" by auto
    with set_foldl_setitem [of "[]" "map (\<lambda>chatbot. (chatbot, [])) (keys responses)"]
    have "(k, row) \<in> set (map (\<lambda>chatbot. (chatbot, [])) (keys responses))"
      by (auto simp: dict_of_pairs_def init_def)
    then have "row = []" by auto
    then show "\<forall>x \<in> set (map snd row). 1 \<le> x \<and> x \<le> 5" by simp
  qed
  from outer_loop_in_range [OF assms [unfolded evaluate_responses_def init_def [symmetric]] this]
  show ?thesis .
qed

lemma evaluate_responses_keys_eq:
  assumes d: "distinct (keys responses)"
    and ev: "evaluate_responses E w responses = (Inr scores, w')"
  shows "keys scores = keys responses"
  using outer_loop_inv [OF ev [unfolded evaluate_responses_def]] keys_init [OF d] by simp

lemma no_empty_row:
  assumes d: "distinct (keys responses)"
    and two: "2 \<le> length responses"
    and answered: "\<forall>it \<in> set responses. \<not> isl (snd it)"
    and ev: "evaluate_responses E w responses = (Inr scores, w')"
  shows "[] \<notin> set (map snd scores)"
proof
  assume "[] \<in> set (map snd scores)"
  then obtain b where b: "(b, []) \<in> set scores" by auto
  from evaluate_responses_keys_eq [OF d ev] have k: "keys scores = keys responses" .
  with d have "distinct (map fst scores)" by (simp add: keys_def)
  with b have row: "map_of scores b = Some []" by (simp add: map_of_is_SomeI)
  from b have "b \<in> set (keys scores)" unfolding keys_def by force
  with k have "b \<in> set (keys responses)" by simp
  then obtain rb where rb: "(b, rb) \<in> set responses" unfolding keys_def by auto
  with answered obtain r where r: "rb = Inr r" by (cases rb) auto
  from two obtain x y rest where xy: "responses = x # y # rest"
    by (cases responses; cases "tl responses") auto
  with d have "fst x \<noteq> fst y" by (simp add: keys_def)
  have "\<exists>it. it \<in> set responses \<and> fst it \<noteq> b"
  proof (cases "fst x = b")
    case True
    with \<open>fst x \<noteq> fst y\<close> have "y \<in> set responses \<and> fst y \<noteq> b" by (simp add: xy)
    then show ?thesis by blast
  next
    case False
    then have "x \<in> set responses \<and> fst x \<noteq> b" by (simp add: xy)
    then show ?thesis by blast
  qed
  then obtain it where it: "it \<in> set responses" "fst it \<noteq> b" by blast
  obtain s rs where s: "it = (s, rs)" by (cases it)
  with it answered obtain r' where r': "rs = Inr r'" by (cases rs) auto
  from evaluate_responses_entry [OF ev, of b s] rb r it s r'
  have "score_entry scores b s \<noteq> None" by auto
  with row show False by (simp add: score_entry_def)
qed

lemma py_max_key:
  assumes "d \<noteq> []"
  shows "\<exists>k. py_max d = Inr k \<and> k \<in> set (keys d)"
proof -
  from py_max_first [OF assms] obtain pre k v post where
    "d = pre @ (k, v) # post" "py_max d = Inr k" by blast
  then show ?thesis by (auto simp: keys_def)
qed

lemma select_best_response_returns:
  assumes ne: "scores \<noteq> []"
    and d: "distinct (keys scores)"
    and rows: "[] \<notin> set (map snd scores)"
    and rng: "\<forall>row \<in> set (map snd scores). \<forall>x \<in> set (map snd row). 1 \<le> x \<and> x \<le> 5"
    and cand: "set (keys scores) \<subseteq> set (keys clarifications)"
  shows "\<exists>best a. (best, a) \<in> set clarifications \<and>
           select_best_response clarifications scores = Inr a"
proof -
  define fl :: "(bot_id, int) dict \<Rightarrow> rat" where
    "fl row = (case truediv (sum_list (map snd row)) (length row) of Inr y \<Rightarrow> y | Inl e \<Rightarrow> 0)" for row
  have "\<forall>row \<in> set (map snd scores). truediv (sum_list (map snd row)) (length row) = Inr (fl row)"
  proof
    fix row assume r: "row \<in> set (map snd scores)"
    with rows have "row \<noteq> []" by metis
    moreover from r rng have "\<forall>x \<in> set (map snd row). 1 \<le> x \<and> x \<le> 5" by blast
    ultimately obtain y where "truediv (sum_list (map snd row)) (length row) = Inr y"
      using truediv_in_range by blast
    then show "truediv (sum_list (map snd row)) (length row) = Inr (fl row)" by (simp add: fl_def)
  qed
  from avg_scores_from_map [OF this, of "[]"] d
  have avg: "avg_scores_from scores [] = Inr (map (\<lambda>(b, row). (b, fl row)) scores)"
    by (simp add: keys_def)
  from ne have "map (\<lambda>(b, row). (b, fl row)) scores \<noteq> []" by simp
  from py_max_key [OF this] obtain k where
    mx: "py_max (map (\<lambda>(b, row). (b, fl row)) scores) = Inr k" and
    kin: "k \<in> set (keys (map (\<lambda>(b, row). (b, fl row)) scores))"
    by blast
  have "keys (map (\<lambda>(b, row). (b, fl row)) scores) = keys scores"
    by (simp add: keys_def comp_def case_prod_unfold)
  with kin cand have "k \<in> set (keys clarifications)" by auto
  then obtain a where a: "map_of clarifications k = Some a"
    unfolding keys_def by (metis map_of_eq_None_iff not_None_eq set_map)
  then have "(k, a) \<in> set clarifications" by (rule map_of_SomeD)
  moreover from avg mx a have "select_best_response clarifications scores = Inr a"
    by (simp add: select_best_response_def getitem_def)
  ultimately show ?thesis by blast
qed

lemma clarify_loop_rows:
  "clarify_loop E responses items acc w = (Inr clar, w') \<Longrightarrow> [] \<notin> set (map snd items)"
proof (induction items arbitrary: acc w)
  case Nil
  show ?case by simp
next
  case (Cons it items)
  obtain b row where it: "it = (b, row)" by (cases it)
  from clarify_loop_step [OF Cons.prems [unfolded it]] obtain P a w1 where
    mn: "py_min row = Inr P" and
    rest: "clarify_loop E responses items (setitem acc b a) w1 = (Inr clar, w')"
    by blast
  from mn have "row \<noteq> []" by (auto simp: py_min_def)
  with Cons.IH [OF rest] it show ?case by simp
qed

lemma get_responses_keys_eq:
  assumes "distinct (keys (CHATBOT_APIS E))"
  shows "keys (fst (get_responses_from_chatbots E w q)) = keys (CHATBOT_APIS E)"
proof -
  let ?apis = "CHATBOT_APIS E"
  let ?rs = "fst (gather E w ?apis q)"
  have "length ?rs = length ?apis" by (rule length_gather)
  then have k: "keys (zip (keys ?apis) ?rs) = keys ?apis" by (simp add: keys_def)
  with assms have "dict_of_pairs (zip (keys ?apis) ?rs) = zip (keys ?apis) ?rs"
    by (simp add: dict_of_pairs_distinct)
  moreover have "fst (get_responses_from_chatbots E w q) = dict_of_pairs (zip (keys ?apis) ?rs)"
    by (cases "gather E w ?apis q") (simp add: get_responses_from_chatbots_def)
  ultimately show ?thesis using k by simp
qed

text \<open>
  A table of scores between 1 and 5 with an empty row, wherever the row stands, makes
  the selection raise \<^verbatim>\<open>ZeroDivisionError\<close>.
\<close>

lemma avg_scores_from_empty_row:
  "(b, []) \<in> set scores \<Longrightarrow>
   \<forall>row \<in> set (map snd scores). \<forall>x \<in> set (map snd row). 1 \<le> x \<and> x \<le> 5 \<Longrightarrow>
   avg_scores_from scores acc = Inl ZeroDivisionError"
proof (induction scores arbitrary: acc)
  case Nil
  then show ?case by simp
next
  case (Cons it scores)
  obtain b' row where it: "it = (b', row)" by (cases it)
  show ?case
  proof (cases "row = []")
    case True
    with it show ?thesis by (simp add: truediv_def)
  next
    case False
    with Cons.prems(1) it have rest: "(b, []) \<in> set scores" by auto
    from Cons.prems(2) it have rng: "\<forall>x \<in> set (map snd row). 1 \<le> x \<and> x \<le> 5"
      and rngs: "\<forall>row \<in> set (map snd scores). \<forall>x \<in> set (map snd row). 1 \<le> x \<and> x \<le> 5"
      by simp_all
    from truediv_in_range [OF False rng] obtain y where
      "truediv (sum_list (map snd row)) (length row) = Inr y" by blast
    with Cons.IH [OF rest rngs] it show ?thesis by simp
  qed
qed

lemma select_best_response_any_empty_row:
  "(b, []) \<in> set scores \<Longrightarrow>
   \<forall>row \<in> set (map snd scores). \<forall>x \<in> set (map snd row). 1 \<le> x \<and> x \<le> 5 \<Longrightarrow>
   select_best_response clarifications scores = Inl ZeroDivisionError"
  by (simp add: select_best_response_def avg_scores_from_empty_row)

lemma run_has_two:
  assumes d: "distinct (keys responses)" and ne: "responses \<noteq> []"
    and ev1: "evaluate_responses E w1 responses = (Inr scores, w2)"
    and cl: "clarify_loop E responses scores [] w2 = (Inr clarifications, w3)"
  shows "2 \<le> length responses"
proof -
  from evaluate_responses_keys_eq [OF d ev1] have k: "keys scores = keys responses" .
  with ne obtain b row rest where sc: "scores = (b, row) # rest"
    by (cases scores) (auto simp: keys_def)
  from clarify_loop_rows [OF cl] sc have "row \<noteq> []" by auto
  then obtain s v row' where "row = (s, v) # row'" by (cases row) auto
  then have "score_entry scores b s \<noteq> None" by (simp add: sc score_entry_def)
  with evaluate_responses_entry [OF ev1, of b s] obtain r r' where
    "(b, Inr r) \<in> set responses" "s \<noteq> b" "(s, Inr r') \<in> set responses"
    by blast
  then have "b \<in> set (keys responses)" "s \<in> set (keys responses)" "s \<noteq> b"
    unfolding keys_def by force+
  then have "card {b, s} \<le> card (set (keys responses))"
    by (intro card_mono) auto
  with \<open>s \<noteq> b\<close> have "2 \<le> card (set (keys responses))" by simp
  also have "\<dots> \<le> length (keys responses)" by (rule card_length)
  finally show ?thesis by (simp add: keys_def)
qed

text \<open>
  Claim C1, as the code has it. The configuration is a dict. In a run of
  \<^verbatim>\<open>interact_between_bots\<close> that reaches the selection (the first round, the first
  scoring, the clarification loop and the second scoring have returned), no row of the
  final score table is empty, so the selection does not raise \<^verbatim>\<open>ZeroDivisionError\<close>;
  and when at least one chatbot is configured, the run returns the clarified answer of
  one of the chatbots. The selection itself has no unscored condition: on a table of
  scores between 1 and 5 with an empty row it raises \<^verbatim>\<open>ZeroDivisionError\<close>.
\<close>

theorem selection_in_a_run:
  assumes d: "distinct (keys (CHATBOT_APIS E))"
    and gr: "get_responses_from_chatbots E w q = (responses, w1)"
    and ev1: "evaluate_responses E w1 responses = (Inr scores, w2)"
    and cl: "clarify_loop E responses scores [] w2 = (Inr clarifications, w3)"
    and ev2: "evaluate_responses E w3 (map (\<lambda>(b, a). (b, Inr a)) clarifications)
                = (Inr final_scores, w4)"
  shows "[] \<notin> set (map snd final_scores) \<and>
         select_best_response clarifications final_scores \<noteq> Inl ZeroDivisionError \<and>
         (CHATBOT_APIS E \<noteq> [] \<longrightarrow>
            (\<exists>best a. (best, a) \<in> set clarifications \<and>
               interact_between_bots E w q = (Inr a, w4))) \<and>
         (\<forall>b table.
            (b, []) \<in> set table \<and>
            (\<forall>row \<in> set (map snd table). \<forall>x \<in> set (map snd row). 1 \<le> x \<and> x \<le> 5) \<longrightarrow>
            select_best_response clarifications table = Inl ZeroDivisionError)"
proof -
  have empty_row: "\<forall>b table.
            (b, []) \<in> set table \<and>
            (\<forall>row \<in> set (map snd table). \<forall>x \<in> set (map snd row). 1 \<le> x \<and> x \<le> 5) \<longrightarrow>
            select_best_response clarifications table = Inl ZeroDivisionError"
    using select_best_response_any_empty_row by blast
  let ?cl = "map (\<lambda>(b, a). (b, Inr a)) clarifications :: (bot_id, py_exc + json) dict"
  from get_responses_keys_eq [OF d, of w q] gr have kr: "keys responses = keys (CHATBOT_APIS E)"
    by simp
  with d have dr: "distinct (keys responses)" by simp
  from evaluate_responses_keys_eq [OF dr ev1] have ks: "keys scores = keys responses" .
  with dr have ds: "distinct (keys scores)" by simp
  have dj: "set (keys scores) \<inter> set (keys ([] :: (bot_id, json) dict)) = {}"
    by (simp add: keys_def)
  from clarify_loop_inv [OF cl ds dj] have kc: "keys clarifications = keys scores"
    by (simp add: keys_def)
  have kcl: "keys ?cl = keys clarifications"
    by (simp add: keys_def comp_def case_prod_unfold)
  with kc ds have dcl: "distinct (keys ?cl)" by simp
  from evaluate_responses_keys_eq [OF dcl ev2] kcl have kf: "keys final_scores = keys clarifications"
    by simp
  have run: "interact_between_bots E w q = (select_best_response clarifications final_scores, w4)"
    using gr ev1 cl ev2 by (simp add: interact_between_bots_def)
  show ?thesis
  proof (cases "CHATBOT_APIS E = []")
    case True
    with kr ks kc kf have "final_scores = []" by (simp add: keys_def)
    then show ?thesis using True empty_row by (simp add: select_best_response_def py_max_def)
  next
    case False
    with kr have ne: "responses \<noteq> []" by (auto simp: keys_def)
    from run_has_two [OF dr ne ev1 cl] ks kc have two: "2 \<le> length ?cl"
      by (metis keys_def length_map)
    have answered: "\<forall>it \<in> set ?cl. \<not> isl (snd it)" by auto
    from no_empty_row [OF dcl two answered ev2] have rows: "[] \<notin> set (map snd final_scores)" .
    from evaluate_responses_in_range [OF ev2]
    have rng: "\<forall>row \<in> set (map snd final_scores). \<forall>x \<in> set (map snd row). 1 \<le> x \<and> x \<le> 5" .
    from two kf kcl have fne: "final_scores \<noteq> []"
      by (metis keys_def length_map list.size(3) not_numeral_le_zero)
    from kf kc ds have df: "distinct (keys final_scores)" by simp
    from kf have cand: "set (keys final_scores) \<subseteq> set (keys clarifications)" by simp
    from select_best_response_returns [OF fne df rows rng cand] obtain best a where
      a: "(best, a) \<in> set clarifications" "select_best_response clarifications final_scores = Inr a"
      by blast
    with run rows empty_row show ?thesis by auto
  qed
qed

theorem selection_in_a_run_witness:
  "distinct (keys (CHATBOT_APIS two_bots)) \<and> CHATBOT_APIS two_bots \<noteq> [] \<and>
   evaluate_responses two_bots [ok_reply ''5'', ok_reply ''I give it a 4.'']
       (map (\<lambda>(b, a). (b, Inr a)) [(''A'', answer ''HOL is a logic, as I said.''),
                                      (''B'', answer ''HOL is a prover, as I said.'')])
     = (Inr [(''A'', [(''B'', 5)]), (''B'', [(''A'', 4)])], []) \<and>
   [] \<notin> set (map snd [(''A'', [(''B'', 5 :: int)]), (''B'', [(''A'', 4)])]) \<and>
   (\<exists>a. interact_between_bots two_bots
          [ok_reply ''HOL is a logic.'', ok_reply ''HOL is a prover. Which one do you mean?'',
           ok_reply ''4'', ok_reply ''2'',
           ok_reply ''HOL is a logic, as I said.'', ok_reply ''HOL is a prover, as I said.'',
           ok_reply ''5'', ok_reply ''I give it a 4.'']
          ''What is HOL?''
        = (Inr a, [])) \<and>
   select_best_response
       [(''A'', answer ''HOL is a logic, as I said.''), (''B'', answer ''HOL is a prover, as I said.'')]
       [(''A'', [(''B'', 5)]), (''B'', [])]
     = Inl ZeroDivisionError"
proof -
  let ?w = "[ok_reply ''HOL is a logic.'', ok_reply ''HOL is a prover. Which one do you mean?'',
           ok_reply ''4'', ok_reply ''2'',
           ok_reply ''HOL is a logic, as I said.'', ok_reply ''HOL is a prover, as I said.'',
           ok_reply ''5'', ok_reply ''I give it a 4.'']"
  let ?responses = "[(''A'', Inr (answer ''HOL is a logic.'')),
                     (''B'', Inr (answer ''HOL is a prover. Which one do you mean?''))]
                    :: (bot_id, py_exc + json) dict"
  let ?clar = "[(''A'', answer ''HOL is a logic, as I said.''),
                (''B'', answer ''HOL is a prover, as I said.'')]"
  let ?bad = "[(''A'', [(''B'', 5)]), (''B'', [])] :: score_table"
  have d: "distinct (keys (CHATBOT_APIS two_bots))" by (simp add: two_bots_def keys_def)
  have ne: "CHATBOT_APIS two_bots \<noteq> []" by (simp add: two_bots_def)
  have gr: "get_responses_from_chatbots two_bots ?w ''What is HOL?'' = (?responses, drop 2 ?w)"
    by code_simp
  have ev1: "evaluate_responses two_bots (drop 2 ?w) ?responses
               = (Inr [(''A'', [(''B'', 4)]), (''B'', [(''A'', 2)])], drop 4 ?w)"
    by code_simp
  have cl: "clarify_loop two_bots ?responses [(''A'', [(''B'', 4)]), (''B'', [(''A'', 2)])] []
              (drop 4 ?w) = (Inr ?clar, drop 6 ?w)"
    by code_simp
  have ev2: "evaluate_responses two_bots (drop 6 ?w) (map (\<lambda>(b, a). (b, Inr a)) ?clar)
               = (Inr [(''A'', [(''B'', 5)]), (''B'', [(''A'', 4)])], [])"
    by code_simp
  have bad: "(''B'', []) \<in> set ?bad \<and>
             (\<forall>row \<in> set (map snd ?bad). \<forall>x \<in> set (map snd row). 1 \<le> x \<and> x \<le> 5)"
    by simp
  note th = selection_in_a_run [OF d gr ev1 cl ev2]
  from th ne
  have "[] \<notin> set (map snd [(''A'', [(''B'', 5 :: int)]), (''B'', [(''A'', 4)])])"
    and "\<exists>a. interact_between_bots two_bots ?w ''What is HOL?'' = (Inr a, [])"
    by blast+
  moreover from th bad have "select_best_response ?clar ?bad = Inl ZeroDivisionError"
    by blast
  moreover have "evaluate_responses two_bots [ok_reply ''5'', ok_reply ''I give it a 4.'']
       (map (\<lambda>(b, a). (b, Inr a)) ?clar)
     = (Inr [(''A'', [(''B'', 5)]), (''B'', [(''A'', 4)])], [])"
    using ev2 by simp
  ultimately show ?thesis using d ne by blast
qed

text \<open>
  Claim C1, as the specification words it: a score table with an empty row, here the
  row of \<^verbatim>\<open>C\<close>, given to \<^verbatim>\<open>select_best_response\<close>. There is no unscored condition:
  the code divides by the length of the row and raises \<^verbatim>\<open>ZeroDivisionError\<close>.
\<close>

theorem select_best_response_empty_row_counterexample:
  "select_best_response
     [(''A'', answer ''a''), (''B'', answer ''b''), (''C'', answer ''c'')]
     [(''A'', [(''B'', 4)]), (''B'', [(''A'', 5)]), (''C'', [])]
   = Inl ZeroDivisionError"
  by (rule select_best_response_any_empty_row [of "''C''"]) simp_all

section \<open>When every chatbot fails\<close>

text \<open>
  When every request of the first round raises an exception that \<^verbatim>\<open>send_to_chatbot\<close>
  does not handle, every row of the first score table is empty, and the orchestration
  raises \<^verbatim>\<open>ValueError\<close> at the first \<^verbatim>\<open>min\<close>.
\<close>

lemma outer_loop_all_exceptions:
  "\<forall>it \<in> set items. isl (snd it) \<Longrightarrow> outer_loop E responses items scores w = (Inr scores, w)"
proof (induction items)
  case Nil
  show ?case by simp
next
  case (Cons it items)
  obtain b r where it: "it = (b, r)" by (cases it)
  with Cons.prems obtain exc where "r = Inl exc" by (cases r) auto
  with Cons it show ?case by simp
qed

lemma interact_all_exceptions:
  assumes ne: "CHATBOT_APIS E \<noteq> []"
    and d: "distinct (keys (CHATBOT_APIS E))"
    and failed: "\<forall>r \<in> set (fst (gather E w (CHATBOT_APIS E) q)). isl r"
  shows "interact_between_bots E w q = (Inl ValueError, snd (gather E w (CHATBOT_APIS E) q))"
proof -
  let ?apis = "CHATBOT_APIS E"
  obtain rs w1 where g: "gather E w ?apis q = (rs, w1)" by (cases "gather E w ?apis q")
  from length_gather [of E w ?apis q] g have len: "length rs = length ?apis" by simp
  define responses where "responses = zip (keys ?apis) rs"
  from len have kr: "keys responses = keys ?apis" by (simp add: responses_def keys_def)
  with d have "dict_of_pairs (zip (keys ?apis) rs) = responses"
    unfolding responses_def by (simp add: dict_of_pairs_distinct)
  with g have gr: "get_responses_from_chatbots E w q = (responses, w1)"
    by (simp add: get_responses_from_chatbots_def)
  from failed g have "\<forall>it \<in> set responses. isl (snd it)"
    unfolding responses_def by (auto dest: set_zip_rightD)
  then have ev: "evaluate_responses E w1 responses =
      (Inr (dict_of_pairs (map (\<lambda>chatbot. (chatbot, [])) (keys responses))), w1)"
    unfolding evaluate_responses_def by (rule outer_loop_all_exceptions)
  define init :: score_table where "init = map (\<lambda>chatbot. (chatbot, [])) (keys responses)"
  from d kr have "distinct (keys init)" by (simp add: init_def keys_def comp_def)
  then have "dict_of_pairs init = init" by (rule dict_of_pairs_distinct)
  with ev have ev': "evaluate_responses E w1 responses = (Inr init, w1)" by (simp add: init_def)
  from ne kr obtain b rest where "init = (b, []) # rest"
    by (cases ?apis) (auto simp: init_def keys_def)
  then have "clarify_loop E responses init [] w1 = (Inl ValueError, w1)"
    by (simp add: py_min_def)
  with gr ev' g show ?thesis by (simp add: interact_between_bots_def)
qed

text \<open>
  Claim C2. Both configured chatbots time out in the first round. The timeout is not an
  \<^verbatim>\<open>aiohttp.ClientError\<close>, so \<^verbatim>\<open>gather\<close> stores the two exception objects, the
  first score table has two empty rows, and \<^verbatim>\<open>min\<close> over the first empty row raises
  \<^verbatim>\<open>ValueError\<close>, which leaves \<^verbatim>\<open>interact_between_bots\<close>.
\<close>

theorem interact_all_bots_failed:
  "interact_between_bots two_bots [Inl TimeoutError, Inl TimeoutError] ''What is HOL?''
   = (Inl ValueError, [])"
  by code_simp

end
